theory Spec2Isabelle
  imports Main "HOL-Library.Sublist" "HOL-Library.Word" "HOL-Library.Multiset"
begin


section \<open>ECMAScript strings\<close>

text \<open>
  An ECMAScript string is a sequence of 16-bit code units. \<open>lit\<close> embeds an ASCII
  literal; every other code unit is written as a numeral (the section sign is \<open>0xA7\<close>).
\<close>

type_synonym jschar = "16 word"
type_synonym jsstring = "jschar list"

definition lit :: "string \<Rightarrow> jsstring" where
  "lit s = map of_char s"

text \<open>
  \<open>String.prototype.trim\<close> strips WhiteSpace and LineTerminator code points from both
  ends: TAB, LF, VT, FF, CR, SP, NBSP, U+1680, U+2000..U+200A, U+2028, U+2029, U+202F,
  U+205F, U+3000 and U+FEFF.
\<close>

definition isWhiteSpace :: "jschar \<Rightarrow> bool" where
  "isWhiteSpace c \<longleftrightarrow>
     c \<in> set [0x9, 0xA, 0xB, 0xC, 0xD, 0x20, 0xA0, 0x1680, 0x2028, 0x2029, 0x202F,
               0x205F, 0x3000, 0xFEFF]
     \<or> (0x2000 \<le> c \<and> c \<le> 0x200A)"

definition trim :: "jsstring \<Rightarrow> jsstring" where
  "trim s = rev (dropWhile isWhiteSpace (rev (dropWhile isWhiteSpace s)))"

text \<open>
  \<open>String.prototype.split\<close> with a string separator and no limit. For a non-empty
  separator the string is cut at the leftmost occurrence of the separator, and the search
  resumes right after that occurrence; the empty string yields one empty part. For the
  empty separator the result is the list of the code units.
\<close>

function splitNE :: "'a list \<Rightarrow> 'a list \<Rightarrow> 'a list list" where
  "splitNE sep [] = [[]]"
| "splitNE sep (x # xs) =
     (if sep \<noteq> [] \<and> prefix sep (x # xs)
      then [] # splitNE sep (drop (length sep) (x # xs))
      else (case splitNE sep xs of [] \<Rightarrow> [[x]] | p # ps \<Rightarrow> (x # p) # ps))"
  by pat_completeness auto
termination
  by (relation "measure (\<lambda>(sep, s). length s)") (auto simp: neq_Nil_conv)

definition splitJS :: "'a list \<Rightarrow> 'a list \<Rightarrow> 'a list list" where
  "splitJS s sep = (if sep = [] then map (\<lambda>c. [c]) s else splitNE sep s)"

text \<open>\<open>Array.prototype.join\<close> on an array of strings.\<close>

fun joinJS :: "'a list list \<Rightarrow> 'a list \<Rightarrow> 'a list" where
  "joinJS [] sep = []"
| "joinJS [p] sep = p"
| "joinJS (p # q # ps) sep = p @ sep @ joinJS (q # ps) sep"

text \<open>
  \<open>sepFree sep f follow\<close>: when the text \<open>f\<close> is followed by \<open>follow\<close>, no occurrence
  of the token \<open>sep\<close> starts inside \<open>f\<close>.
\<close>

fun sepFree :: "'a list \<Rightarrow> 'a list \<Rightarrow> 'a list \<Rightarrow> bool" where
  "sepFree sep [] follow = True"
| "sepFree sep (x # xs) follow = (\<not> prefix sep (x # xs @ follow) \<and> sepFree sep xs follow)"

section \<open>Errors\<close>

text \<open>
  The exceptions a call can end with: the native \<open>TypeError\<close>, \<open>RangeError\<close> and
  \<open>SyntaxError\<close>, and \<open>Error msg\<close> for \<open>throw new Error(msg)\<close>.
\<close>

datatype error = TypeError | RangeError | SyntaxError | Error string

section \<open>git.ts: parseGitLog\<close>

record CommitInfo =
  hash :: jsstring
  date :: jsstring
  author :: jsstring
  message :: jsstring
  body :: "jsstring option"

text \<open>
  Array destructuring reads an index past the end as \<open>undefined\<close> (\<open>None\<close>), and
  calling \<open>.trim()\<close> on \<open>undefined\<close> throws a \<open>TypeError\<close>.
\<close>

definition elemAt :: "'a list \<Rightarrow> nat \<Rightarrow> 'a option" where
  "elemAt xs i = (if i < length xs then Some (xs ! i) else None)"

definition trimU :: "jsstring option \<Rightarrow> error + jsstring" where
  "trimU v = (case v of None \<Rightarrow> Inl TypeError | Some s \<Rightarrow> Inr (trim s))"

text \<open>
  The object pushed for one chunk:
  \<open>const [hash, date, author, message, ...bodyParts] = parts\<close>, the body rejoined with
  the field separator and trimmed, and \<open>body || undefined\<close>.
\<close>

definition mkCommit :: "jsstring list \<Rightarrow> jsstring \<Rightarrow> error + CommitInfo" where
  "mkCommit parts fieldSeparator =
     (let bodyParts = drop 4 parts;
          bodyText = trim (joinJS bodyParts fieldSeparator)
      in case trimU (elemAt parts 0) of Inl e \<Rightarrow> Inl e | Inr h \<Rightarrow>
         (case trimU (elemAt parts 1) of Inl e \<Rightarrow> Inl e | Inr d \<Rightarrow>
         (case trimU (elemAt parts 2) of Inl e \<Rightarrow> Inl e | Inr a \<Rightarrow>
         (case trimU (elemAt parts 3) of Inl e \<Rightarrow> Inl e | Inr m \<Rightarrow>
            Inr \<lparr>hash = h, date = d, author = a, message = m,
                 body = (if bodyText = [] then None else Some bodyText)\<rparr>))))"

text \<open>The \<open>for\<close> loop over \<open>rawCommits\<close>, with the array \<open>commits\<close> built so far.\<close>

fun parseLoop :: "jsstring \<Rightarrow> CommitInfo list \<Rightarrow> jsstring list \<Rightarrow> error + CommitInfo list" where
  "parseLoop fieldSeparator commits [] = Inr commits"
| "parseLoop fieldSeparator commits (rawCommit # rest) =
     (let parts = splitJS rawCommit fieldSeparator
      in if 4 \<le> length parts
         then (case mkCommit parts fieldSeparator of
                 Inl e \<Rightarrow> Inl e
               | Inr c \<Rightarrow> parseLoop fieldSeparator (commits @ [c]) rest)
         else parseLoop fieldSeparator commits rest)"

text \<open>\<open>raw.split(commitSeparator).filter((c) => c.trim())\<close>: a string is truthy when non-empty.\<close>

definition rawCommitsOf :: "jsstring \<Rightarrow> jsstring \<Rightarrow> jsstring list" where
  "rawCommitsOf raw commitSeparator =
     filter (\<lambda>c. trim c \<noteq> []) (splitJS raw commitSeparator)"

definition parseGitLog :: "jsstring \<Rightarrow> jsstring \<Rightarrow> jsstring \<Rightarrow> error + CommitInfo list" where
  "parseGitLog raw commitSeparator fieldSeparator =
     parseLoop fieldSeparator [] (rawCommitsOf raw commitSeparator)"

text \<open>
  The record the specification assigns to a list of fields: the first four fields
  trimmed, and the remaining fields rejoined with the field separator and trimmed as the
  body, which is absent when that text is empty.
\<close>

definition specRecord :: "jsstring list \<Rightarrow> jsstring \<Rightarrow> CommitInfo" where
  "specRecord flds fieldSeparator =
     \<lparr>hash = trim (flds ! 0), date = trim (flds ! 1), author = trim (flds ! 2),
      message = trim (flds ! 3),
      body = (if trim (joinJS (drop 4 flds) fieldSeparator) = [] then None
              else Some (trim (joinJS (drop 4 flds) fieldSeparator)))\<rparr>"

text \<open>
  A well-formed commit record: at least four fields; the field separator starts inside
  none of the first four fields; the joined record is not whitespace only, and the commit
  separator starts nowhere inside it.
\<close>

definition wellFormedRecord :: "jsstring \<Rightarrow> jsstring \<Rightarrow> jsstring list \<Rightarrow> bool" where
  "wellFormedRecord commitSeparator fieldSeparator flds \<longleftrightarrow>
     4 \<le> length flds
     \<and> list_all (\<lambda>f. sepFree fieldSeparator f fieldSeparator) (take 4 flds)
     \<and> trim (joinJS flds fieldSeparator) \<noteq> []
     \<and> sepFree commitSeparator (joinJS flds fieldSeparator) commitSeparator"

text \<open>The blob of a list of records, with or without a trailing commit separator.\<close>

definition blobOf :: "jsstring list list \<Rightarrow> jsstring \<Rightarrow> jsstring \<Rightarrow> bool \<Rightarrow> jsstring" where
  "blobOf records commitSeparator fieldSeparator trailing =
     joinJS (map (\<lambda>flds. joinJS flds fieldSeparator) records) commitSeparator
     @ (if trailing then commitSeparator else [])"

text \<open>A record whose fields carry no outer whitespace, with a body that is absent or non-empty.\<close>

definition trimmedRecord :: "CommitInfo \<Rightarrow> bool" where
  "trimmedRecord r \<longleftrightarrow>
     trim (hash r) = hash r \<and> trim (date r) = date r \<and> trim (author r) = author r
     \<and> trim (message r) = message r
     \<and> (case body r of None \<Rightarrow> True | Some b \<Rightarrow> b \<noteq> [] \<and> trim b = b)"

section \<open>ECMAScript values\<close>

text \<open>
  The values that occur in summarize.ts: the results of \<open>JSON.parse\<close> (a number
  \<open>JNum m e\<close> stands for \<open>m * 10 ^ e\<close>, an object keeps its own properties in source
  order), \<open>undefined\<close>, the built-in function objects of \<open>Object.prototype\<close> (by name), and
  \<open>Object.prototype\<close> itself.
\<close>

datatype jsvalue =
    JUndefined
  | JNull
  | JBool bool
  | JNum int int
  | JStr jsstring
  | JArr "jsvalue list"
  | JObj "(jsstring \<times> jsvalue) list"
  | JNative string
  | JObjectPrototype

text \<open>
  A number literal denotes the double nearest to its decimal value, which is zero when
  the value is zero or at most \<open>2 ^ -1075\<close> in magnitude (half the least subnormal).
\<close>

definition numIsZero :: "int \<Rightarrow> int \<Rightarrow> bool" where
  "numIsZero m e \<longleftrightarrow> m = 0 \<or> (e < 0 \<and> \<bar>m\<bar> * 2 ^ 1075 \<le> 10 ^ nat (- e))"

text \<open>\<open>ToBoolean\<close>: the operand test of \<open>||\<close>.\<close>

fun toBoolean :: "jsvalue \<Rightarrow> bool" where
  "toBoolean JUndefined = False"
| "toBoolean JNull = False"
| "toBoolean (JBool b) = b"
| "toBoolean (JNum m e) = (\<not> numIsZero m e)"
| "toBoolean (JStr s) = (s \<noteq> [])"
| "toBoolean (JArr xs) = True"
| "toBoolean (JObj props) = True"
| "toBoolean (JNative f) = True"
| "toBoolean JObjectPrototype = True"

text \<open>
  The properties every ordinary object inherits from \<open>Object.prototype\<close>: its methods,
  \<open>constructor\<close> (the function \<open>Object\<close>) and the accessor \<open>__proto__\<close>, which yields the
  prototype of the receiver.
\<close>

definition objectPrototypeProps :: "(string \<times> jsvalue) list" where
  "objectPrototypeProps =
     [(''constructor'', JNative ''Object''),
      (''hasOwnProperty'', JNative ''hasOwnProperty''),
      (''isPrototypeOf'', JNative ''isPrototypeOf''),
      (''propertyIsEnumerable'', JNative ''propertyIsEnumerable''),
      (''toLocaleString'', JNative ''toLocaleString''),
      (''toString'', JNative ''toString''),
      (''valueOf'', JNative ''valueOf''),
      (''__defineGetter__'', JNative ''__defineGetter__''),
      (''__defineSetter__'', JNative ''__defineSetter__''),
      (''__lookupGetter__'', JNative ''__lookupGetter__''),
      (''__lookupSetter__'', JNative ''__lookupSetter__''),
      (''__proto__'', JObjectPrototype)]"

text \<open>
  Property read \<open>obj[key]\<close> on an ordinary object with the given own properties: the own
  property (the last one written, when a key is repeated), else the inherited one, else
  \<open>undefined\<close>.
\<close>

definition getProp :: "(jsstring \<times> jsvalue) list \<Rightarrow> jsstring \<Rightarrow> jsvalue" where
  "getProp props key =
     (case map_of (rev props) key of
        Some v \<Rightarrow> v
      | None \<Rightarrow>
          (case map_of (map (\<lambda>(k, v). (lit k, v)) objectPrototypeProps) key of
             Some v \<Rightarrow> v
           | None \<Rightarrow> JUndefined))"

section \<open>JSON.parse\<close>

definition ch :: "char \<Rightarrow> jschar" where
  "ch c = of_char c"

definition isJsonWs :: "jschar \<Rightarrow> bool" where
  "isJsonWs c \<longleftrightarrow> c = 0x20 \<or> c = 0x9 \<or> c = 0xA \<or> c = 0xD"

definition skipWs :: "jsstring \<Rightarrow> jsstring" where
  "skipWs s = dropWhile isJsonWs s"

definition isDigit :: "jschar \<Rightarrow> bool" where
  "isDigit c \<longleftrightarrow> 0x30 \<le> c \<and> c \<le> 0x39"

definition digitsVal :: "jsstring \<Rightarrow> int" where
  "digitsVal ds = foldl (\<lambda>acc c. 10 * acc + (uint c - 48)) 0 ds"

definition hexVal :: "jschar \<Rightarrow> jschar option" where
  "hexVal c =
     (if 0x30 \<le> c \<and> c \<le> 0x39 then Some (c - 0x30)
      else if 0x41 \<le> c \<and> c \<le> 0x46 then Some (c - 0x37)
      else if 0x61 \<le> c \<and> c \<le> 0x66 then Some (c - 0x57)
      else None)"

text \<open>The escape letters of a JSON string and the code units they denote.\<close>

definition escapes :: "(jschar \<times> jschar) list" where
  "escapes =
     [(0x22, 0x22), (0x5C, 0x5C), (0x2F, 0x2F), (ch CHR ''b'', 0x8), (ch CHR ''f'', 0xC),
      (ch CHR ''n'', 0xA), (ch CHR ''r'', 0xD), (ch CHR ''t'', 0x9)]"

text \<open>
  The characters of a string after its opening quote, up to the closing quote: no
  unescaped control character, the two-character escapes, and \<open>\<^verbatim>\<open>\u\<close>\<close> with four hex
  digits. \<open>acc\<close> holds the code units read so far, last first.
\<close>

fun parseString :: "jsstring \<Rightarrow> jsstring \<Rightarrow> (jsstring \<times> jsstring) option" where
  "parseString acc [] = None"
| "parseString acc (c # cs) =
     (if c = 0x22 then Some (rev acc, cs)
      else if c = 0x5C then
        (case cs of
           [] \<Rightarrow> None
         | e # r \<Rightarrow>
             (case map_of escapes e of
                Some u \<Rightarrow> parseString (u # acc) r
              | None \<Rightarrow>
                  if e = ch CHR ''u'' then
                    (case r of
                       h1 # h2 # h3 # h4 # r' \<Rightarrow>
                         (case (hexVal h1, hexVal h2, hexVal h3, hexVal h4) of
                            (Some a, Some b, Some c', Some d) \<Rightarrow>
                              parseString ((a * 0x1000 + b * 0x100 + c' * 0x10 + d) # acc) r'
                          | _ \<Rightarrow> None)
                     | _ \<Rightarrow> None)
                  else None))
      else if c < 0x20 then None
      else parseString (c # acc) cs)"

text \<open>
  A number: optional minus, an integer part without a leading zero, an optional fraction
  and an optional exponent, each with at least one digit.
\<close>

definition parseNumber :: "jsstring \<Rightarrow> (jsvalue \<times> jsstring) option" where
  "parseNumber s =
     (let neg = (s \<noteq> [] \<and> hd s = 0x2D);
          s1 = (if neg then tl s else s);
          ip = takeWhile isDigit s1;
          s2 = dropWhile isDigit s1;
          hasFrac = (s2 \<noteq> [] \<and> hd s2 = 0x2E);
          fp = (if hasFrac then takeWhile isDigit (tl s2) else []);
          s3 = (if hasFrac then dropWhile isDigit (tl s2) else s2);
          hasExp = (s3 \<noteq> [] \<and> (hd s3 = ch CHR ''e'' \<or> hd s3 = ch CHR ''E''));
          s4 = (if hasExp then tl s3 else s3);
          expNeg = (hasExp \<and> s4 \<noteq> [] \<and> hd s4 = 0x2D);
          s5 = (if hasExp \<and> s4 \<noteq> [] \<and> (hd s4 = 0x2D \<or> hd s4 = 0x2B) then tl s4 else s4);
          ep = (if hasExp then takeWhile isDigit s5 else []);
          s6 = (if hasExp then dropWhile isDigit s5 else s3);
          m = digitsVal (ip @ fp);
          e = (if expNeg then - digitsVal ep else digitsVal ep) - int (length fp)
      in if ip = [] \<or> (1 < length ip \<and> hd ip = 0x30) \<or> (hasFrac \<and> fp = [])
            \<or> (hasExp \<and> ep = [])
         then None
         else Some (JNum (if neg then - m else m) e, s6))"

text \<open>
  A JSON value at the head of the text, with the text that follows it. The tests on
  \<open>length\<close> make the recursion visibly well-founded; they hold whenever they are
  reached, since a value takes at least one code unit, so the equations hold without them
  as well (\<open>parseElements_unguarded\<close>, \<open>parseMembers_unguarded\<close>).
\<close>

function parseValue :: "jsstring \<Rightarrow> (jsvalue \<times> jsstring) option"
  and parseElements :: "jsvalue list \<Rightarrow> jsstring \<Rightarrow> (jsvalue \<times> jsstring) option"
  and parseMembers :: "(jsstring \<times> jsvalue) list \<Rightarrow> jsstring \<Rightarrow> (jsvalue \<times> jsstring) option"
  where
  "parseValue s =
     (case skipWs s of
        [] \<Rightarrow> None
      | c # cs \<Rightarrow>
          if c = ch CHR ''{'' then
            (if skipWs cs \<noteq> [] \<and> hd (skipWs cs) = ch CHR ''}'' then Some (JObj [], tl (skipWs cs))
             else parseMembers [] cs)
          else if c = ch CHR ''['' then
            (if skipWs cs \<noteq> [] \<and> hd (skipWs cs) = ch CHR '']'' then Some (JArr [], tl (skipWs cs))
             else parseElements [] cs)
          else if c = 0x22 then
            (case parseString [] cs of
               None \<Rightarrow> None
             | Some (str, rest) \<Rightarrow> Some (JStr str, rest))
          else if prefix (lit ''true'') (c # cs) then Some (JBool True, drop 4 (c # cs))
          else if prefix (lit ''false'') (c # cs) then Some (JBool False, drop 5 (c # cs))
          else if prefix (lit ''null'') (c # cs) then Some (JNull, drop 4 (c # cs))
          else parseNumber (c # cs))"
| "parseElements acc s =
     (case parseValue s of
        None \<Rightarrow> None
      | Some (v, rest) \<Rightarrow>
          if length rest < length s then
            (case skipWs rest of
               [] \<Rightarrow> None
             | c # r \<Rightarrow>
                 if c = ch CHR '','' then parseElements (acc @ [v]) r
                 else if c = ch CHR '']'' then Some (JArr (acc @ [v]), r)
                 else None)
          else None)"
| "parseMembers acc s =
     (case skipWs s of
        [] \<Rightarrow> None
      | q # cs \<Rightarrow>
          if q = 0x22 then
            (case parseString [] cs of
               None \<Rightarrow> None
             | Some (key, afterKey) \<Rightarrow>
                 (case skipWs afterKey of
                    [] \<Rightarrow> None
                  | colon # afterColon \<Rightarrow>
                      if colon = ch CHR '':'' \<and> length afterColon < length s then
                        (case parseValue afterColon of
                           None \<Rightarrow> None
                         | Some (v, rest) \<Rightarrow>
                             if length rest < length afterColon then
                               (case skipWs rest of
                                  [] \<Rightarrow> None
                                | c # r \<Rightarrow>
                                    if c = ch CHR '','' then parseMembers (acc @ [(key, v)]) r
                                    else if c = ch CHR ''}'' then Some (JObj (acc @ [(key, v)]), r)
                                    else None)
                             else None)
                      else None))
          else None)"
  by pat_completeness auto
termination
proof (relation "measure (\<lambda>x. case x of
    Inl s \<Rightarrow> 2 * length s + 1
  | Inr (Inl (acc, s)) \<Rightarrow> 2 * length s + 2
  | Inr (Inr (acc, s)) \<Rightarrow> 2 * length s + 2)", goal_cases)
  case 1
  show ?case by simp
next
  case (2 s c cs)
  have "length (skipWs s) \<le> length s" by (simp add: skipWs_def length_dropWhile_le)
  with 2 show ?case by simp
next
  case (3 s c cs)
  have "length (skipWs s) \<le> length s" by (simp add: skipWs_def length_dropWhile_le)
  with 3 show ?case by simp
next
  case (4 acc s)
  show ?case by simp
next
  case (5 acc s x v rest c r)
  have "length (skipWs rest) \<le> length rest" by (simp add: skipWs_def length_dropWhile_le)
  with 5 show ?case by simp
next
  case (6 acc s q cs x key afterKey colon afterColon)
  then show ?case by simp
next
  case (7 acc s q cs x key afterKey colon afterColon x' v rest c r)
  have "length (skipWs rest) \<le> length rest" by (simp add: skipWs_def length_dropWhile_le)
  with 7 show ?case by simp
qed

declare parseValue.simps [simp del] parseElements.simps [simp del] parseMembers.simps [simp del]

text \<open>
  \<open>JSON.parse(text)\<close>: the value of the text, which may be followed by whitespace only;
  \<open>None\<close> stands for the \<open>SyntaxError\<close> thrown otherwise.
\<close>

definition JSON_parse :: "jsstring \<Rightarrow> jsvalue option" where
  "JSON_parse text =
     (case parseValue text of
        None \<Rightarrow> None
      | Some (v, rest) \<Rightarrow> if skipWs rest = [] then Some v else None)"

section \<open>summarize.ts\<close>

definition AUDIENCE_PROMPTS :: "(jsstring \<times> jsvalue) list" where
  "AUDIENCE_PROMPTS =
     [(lit ''general'', JStr (lit ''Write for a general business audience.'')),
      (lit ''sales'', JStr (lit ''Write for a sales team. Emphasize customer-facing features and competitive advantages.'')),
      (lit ''ops'', JStr (lit ''Write for an operations team. Emphasize reliability, performance, and process improvements.'')),
      (lit ''cx'', JStr (lit ''Write for a customer experience team. Emphasize user-facing changes and support-related fixes.''))]"

text \<open>
  Line 30 of summarizeCommits, with the default of the parameter \<open>audience\<close> (\<open>None\<close> is
  an absent argument): \<open>AUDIENCE_PROMPTS[audience] || AUDIENCE_PROMPTS.general\<close>.
\<close>

definition audienceGuidance :: "jsstring option \<Rightarrow> jsvalue" where
  "audienceGuidance audienceArg =
     (let audience = (case audienceArg of None \<Rightarrow> lit ''general'' | Some a \<Rightarrow> a);
          v = getProp AUDIENCE_PROMPTS audience
      in if toBoolean v then v else getProp AUDIENCE_PROMPTS (lit ''general''))"

datatype category = Features | Fixes | Improvements | Other

record DigestSection =
  category :: category
  items :: jsvalue

text \<open>
  The match of \<open>/\{[\s\S]*\}/\<close>: from the first \<open>{\<close> that has a \<open>}\<close> after it to the
  last \<open>}\<close> of the text; \<open>None\<close> is \<open>null\<close>.
\<close>

definition matchBraces :: "jsstring \<Rightarrow> jsstring option" where
  "matchBraces text =
     (let fromOpen = dropWhile (\<lambda>c. c \<noteq> ch CHR ''{'') text
      in if fromOpen = [] then None
         else let inner = rev (dropWhile (\<lambda>c. c \<noteq> ch CHR ''}'') (rev (tl fromOpen)))
              in if inner = [] then None else Some (ch CHR ''{'' # inner))"

text \<open>
  \<open>v || []\<close>, and \<open>data.key || []\<close> for the value \<open>data\<close> that \<open>JSON.parse\<close> returned. Reading a property
  of \<open>null\<close> throws a \<open>TypeError\<close>; the wrappers of strings, numbers and booleans and the
  arrays have none of the four properties read here.
\<close>

definition orEmpty :: "jsvalue \<Rightarrow> jsvalue" where
  "orEmpty v = (if toBoolean v then v else JArr [])"

definition itemsOf :: "jsvalue \<Rightarrow> jsstring \<Rightarrow> error + jsvalue" where
  "itemsOf data key =
     (case data of
        JObj props \<Rightarrow> Inr (orEmpty (getProp props key))
      | JNull \<Rightarrow> Inl TypeError
      | JUndefined \<Rightarrow> Inl TypeError
      | _ \<Rightarrow> Inr (JArr []))"

definition sectionsOf :: "jsvalue \<Rightarrow> error + DigestSection list" where
  "sectionsOf data =
     (case itemsOf data (lit ''features'') of Inl e \<Rightarrow> Inl e | Inr i1 \<Rightarrow>
     (case itemsOf data (lit ''fixes'') of Inl e \<Rightarrow> Inl e | Inr i2 \<Rightarrow>
     (case itemsOf data (lit ''improvements'') of Inl e \<Rightarrow> Inl e | Inr i3 \<Rightarrow>
     (case itemsOf data (lit ''other'') of Inl e \<Rightarrow> Inl e | Inr i4 \<Rightarrow>
        Inr [\<lparr>category = Features, items = i1\<rparr>, \<lparr>category = Fixes, items = i2\<rparr>,
             \<lparr>category = Improvements, items = i3\<rparr>, \<lparr>category = Other, items = i4\<rparr>]))))"

definition parseClaudeResponse :: "jsstring \<Rightarrow> error + DigestSection list" where
  "parseClaudeResponse text =
     (case matchBraces text of
        None \<Rightarrow> Inl (Error ''Could not parse Claude response as JSON'')
      | Some jsonMatch \<Rightarrow>
          (case JSON_parse jsonMatch of
             None \<Rightarrow> Inl SyntaxError
           | Some data \<Rightarrow> sectionsOf data))"

text \<open>Whether a text holds a \<open>{\<close> with a \<open>}\<close> somewhere after it.\<close>

fun hasSpan :: "jsstring \<Rightarrow> bool" where
  "hasSpan [] = False"
| "hasSpan (c # cs) = (if c = ch CHR ''{'' then ch CHR ''}'' \<in> set cs else hasSpan cs)"

text \<open>The four category keys with their categories, in the order of the result.\<close>

definition categoryKeys :: "(category \<times> string) list" where
  "categoryKeys =
     [(Features, ''features''), (Fixes, ''fixes''), (Improvements, ''improvements''),
      (Other, ''other'')]"

section \<open>ECMAScript dates\<close>

text \<open>
  The numbers that occur in getDateRange: time values are integral milliseconds since the
  epoch or \<open>NaN\<close>; \<open>Math.min\<close> and \<open>Math.max\<close> add the two infinities.
\<close>

datatype jsnum = NaN | NegInfinity | Number int | Infinity

definition msPerDay :: int where
  "msPerDay = 86400000"

text \<open>\<open>TimeClip\<close>: a time value is an integer of magnitude at most \<open>8.64e15\<close>.\<close>

definition timeClip :: "jsnum \<Rightarrow> jsnum" where
  "timeClip v =
     (case v of
        Number t \<Rightarrow> if \<bar>t\<bar> \<le> 8640000000000000 then Number t else NaN
      | _ \<Rightarrow> NaN)"

text \<open>The day numbering of the language standard (day 0 is 1970-01-01, UTC).\<close>

definition isLeap :: "int \<Rightarrow> bool" where
  "isLeap y \<longleftrightarrow> y mod 4 = 0 \<and> (y mod 100 \<noteq> 0 \<or> y mod 400 = 0)"

definition dayFromYear :: "int \<Rightarrow> int" where
  "dayFromYear y =
     365 * (y - 1970) + (y - 1969) div 4 - (y - 1901) div 100 + (y - 1601) div 400"

text \<open>
  \<open>yearFromDay d\<close> is the year \<open>y\<close> with \<open>dayFromYear y \<le> d < dayFromYear (y + 1)\<close>:
  the estimate by the mean length of a year is off by one at most.
\<close>

definition yearFromDay :: "int \<Rightarrow> int" where
  "yearFromDay d =
     (let ye = 1970 + (400 * d) div 146097
      in if d < dayFromYear ye then ye - 1
         else if dayFromYear (ye + 1) \<le> d then ye + 1
         else ye)"

text \<open>The day within the year on which each month starts.\<close>

definition monthStarts :: "bool \<Rightarrow> int list" where
  "monthStarts leap =
     (let l = (if leap then 1 else 0)
      in [0, 31, 59 + l, 90 + l, 120 + l, 151 + l, 181 + l, 212 + l, 243 + l, 273 + l,
          304 + l, 334 + l])"

definition daysInMonth :: "int \<Rightarrow> int \<Rightarrow> int" where
  "daysInMonth y m =
     (if m = 2 then (if isLeap y then 29 else 28)
      else if m = 4 \<or> m = 6 \<or> m = 9 \<or> m = 11 then 30
      else 31)"

text \<open>Year, month (from 1) and day of the month (from 1) of a day number.\<close>

definition civilFromDay :: "int \<Rightarrow> int \<times> int \<times> int" where
  "civilFromDay d =
     (let y = yearFromDay d;
          dwy = d - dayFromYear y;
          starts = monthStarts (isLeap y);
          m = length (filter (\<lambda>s. s \<le> dwy) starts)
      in (y, int m, dwy - starts ! (m - 1) + 1))"

text \<open>\<open>MakeDay\<close> for a month from 1 to 12.\<close>

definition makeDay :: "int \<Rightarrow> int \<Rightarrow> int \<Rightarrow> int" where
  "makeDay y m d = dayFromYear y + monthStarts (isLeap y) ! nat (m - 1) + d - 1"

text \<open>Decimal digits, zero-padded to a fixed width.\<close>

definition digitChar :: "int \<Rightarrow> jschar" where
  "digitChar n = lit ''0123456789'' ! nat (n mod 10)"

definition pad2 :: "int \<Rightarrow> jsstring" where
  "pad2 n = [digitChar (n div 10), digitChar n]"

definition pad3 :: "int \<Rightarrow> jsstring" where
  "pad3 n = [digitChar (n div 100), digitChar (n div 10), digitChar n]"

definition pad4 :: "int \<Rightarrow> jsstring" where
  "pad4 n = [digitChar (n div 1000), digitChar (n div 100), digitChar (n div 10), digitChar n]"

definition pad6 :: "int \<Rightarrow> jsstring" where
  "pad6 n = [digitChar (n div 100000), digitChar (n div 10000), digitChar (n div 1000),
            digitChar (n div 100), digitChar (n div 10), digitChar n]"

text \<open>
  The year of \<open>toISOString\<close>: four digits from 0 to 9999, else a sign and six digits.
\<close>

definition yearString :: "int \<Rightarrow> jsstring" where
  "yearString y =
     (if 0 \<le> y \<and> y \<le> 9999 then pad4 y
      else if y < 0 then lit ''-'' @ pad6 (- y)
      else lit ''+'' @ pad6 y)"

text \<open>The calendar date, in UTC, of a time value: the time within the day plays no part.\<close>

definition utcDate :: "int \<Rightarrow> jsstring" where
  "utcDate t =
     (case civilFromDay (t div msPerDay) of
        (y, m, d) \<Rightarrow> yearString y @ lit ''-'' @ pad2 m @ lit ''-'' @ pad2 d)"

definition utcTime :: "int \<Rightarrow> jsstring" where
  "utcTime t =
     (let ms = t mod msPerDay
      in pad2 (ms div 3600000) @ lit '':'' @ pad2 (ms div 60000 mod 60) @ lit '':''
         @ pad2 (ms div 1000 mod 60) @ lit ''.'' @ pad3 (ms mod 1000) @ lit ''Z'')"

text \<open>\<open>Date.prototype.toISOString\<close>: a \<open>RangeError\<close> for an invalid date.\<close>

definition toISOString :: "jsnum \<Rightarrow> error + jsstring" where
  "toISOString tv =
     (case tv of
        Number t \<Rightarrow> Inr (utcDate t @ lit ''T'' @ utcTime t)
      | _ \<Rightarrow> Inl RangeError)"

text \<open>
  The date-time strings whose time value the language standard fixes independently of
  the host: \<open>YYYY-MM-DD\<close>, read as UTC midnight, and \<open>YYYY-MM-DDTHH:mm:ss\<close> with an
  optional \<open>.sss\<close> and a mandatory \<open>Z\<close> or \<open>+HH:mm\<close> / \<open>-HH:mm\<close>, all fields in range.
  \<open>isoParse\<close> is \<open>None\<close> on every other string.
\<close>

definition digitsOpt :: "nat \<Rightarrow> jsstring \<Rightarrow> int option" where
  "digitsOpt n s = (if length s = n \<and> list_all isDigit s then Some (digitsVal s) else None)"

definition parseYMD :: "jsstring \<Rightarrow> (int \<times> int \<times> int) option" where
  "parseYMD s =
     (case (digitsOpt 4 (take 4 s), digitsOpt 2 (take 2 (drop 5 s)), digitsOpt 2 (drop 8 s)) of
        (Some y, Some m, Some d) \<Rightarrow>
          if length s = 10 \<and> s ! 4 = ch CHR ''-'' \<and> s ! 7 = ch CHR ''-''
             \<and> 1 \<le> m \<and> m \<le> 12 \<and> 1 \<le> d \<and> d \<le> daysInMonth y m
          then Some (y, m, d) else None
      | _ \<Rightarrow> None)"

definition parseHMS :: "jsstring \<Rightarrow> int option" where
  "parseHMS s =
     (case (digitsOpt 2 (take 2 s), digitsOpt 2 (take 2 (drop 3 s)), digitsOpt 2 (drop 6 s)) of
        (Some h, Some m, Some sec) \<Rightarrow>
          if length s = 8 \<and> s ! 2 = ch CHR '':'' \<and> s ! 5 = ch CHR '':''
             \<and> h \<le> 23 \<and> m \<le> 59 \<and> sec \<le> 59
          then Some (h * 3600000 + m * 60000 + sec * 1000) else None
      | _ \<Rightarrow> None)"

text \<open>The offset from UTC in minutes: \<open>Z\<close>, or a sign with \<open>HH:mm\<close>.\<close>

definition parseOffset :: "jsstring \<Rightarrow> int option" where
  "parseOffset s =
     (if s = lit ''Z'' then Some 0
      else if length s = 6 \<and> (s ! 0 = ch CHR ''+'' \<or> s ! 0 = ch CHR ''-'') \<and> s ! 3 = ch CHR '':''
      then (case (digitsOpt 2 (take 2 (drop 1 s)), digitsOpt 2 (drop 4 s)) of
              (Some h, Some m) \<Rightarrow>
                if h \<le> 23 \<and> m \<le> 59
                then Some ((if s ! 0 = ch CHR ''-'' then - 1 else 1) * (h * 60 + m))
                else None
            | _ \<Rightarrow> None)
      else None)"

definition isoParse :: "jsstring \<Rightarrow> int option" where
  "isoParse s =
     (if length s = 10 then
        (case parseYMD s of
           Some (y, m, d) \<Rightarrow> Some (makeDay y m d * msPerDay)
         | None \<Rightarrow> None)
      else if 19 \<le> length s \<and> s ! 10 = ch CHR ''T'' then
        (case (parseYMD (take 10 s), parseHMS (take 8 (drop 11 s))) of
           (Some (y, m, d), Some tod) \<Rightarrow>
             (let rest = drop 19 s;
                  hasMs = (4 \<le> length rest \<and> rest ! 0 = ch CHR ''.''
                           \<and> list_all isDigit (take 3 (drop 1 rest)));
                  ms = (if hasMs then digitsVal (take 3 (drop 1 rest)) else 0);
                  zone = (if hasMs then drop 4 rest else rest)
              in case parseOffset zone of
                   Some off \<Rightarrow> Some (makeDay y m d * msPerDay + tod + ms - off * 60000)
                 | None \<Rightarrow> None)
         | _ \<Rightarrow> None)
      else None)"

text \<open>
  \<open>new Date(s)\<close> for a string: the time value of \<open>isoParse\<close> where it is defined;
  every other string is left to the parser of the host, \<open>hostParse\<close>, which answers
  \<open>NaN\<close> for a string it does not recognise. The result is clipped.
\<close>

definition newDate :: "(jsstring \<Rightarrow> jsnum) \<Rightarrow> jsstring \<Rightarrow> jsnum" where
  "newDate hostParse s =
     timeClip (case isoParse s of Some t \<Rightarrow> Number t | None \<Rightarrow> hostParse s)"

text \<open>
  \<open>Math.min\<close> and \<open>Math.max\<close>: \<open>NaN\<close> as soon as one argument is \<open>NaN\<close>; without
  arguments \<open>Infinity\<close> and \<open>-Infinity\<close>.
\<close>

fun leNum :: "jsnum \<Rightarrow> jsnum \<Rightarrow> bool" where
  "leNum NegInfinity b = True"
| "leNum a Infinity = True"
| "leNum (Number a) (Number b) = (a \<le> b)"
| "leNum a b = False"

definition min2 :: "jsnum \<Rightarrow> jsnum \<Rightarrow> jsnum" where
  "min2 a b = (if a = NaN \<or> b = NaN then NaN else if leNum a b then a else b)"

definition max2 :: "jsnum \<Rightarrow> jsnum \<Rightarrow> jsnum" where
  "max2 a b = (if a = NaN \<or> b = NaN then NaN else if leNum a b then b else a)"

definition mathMin :: "jsnum list \<Rightarrow> jsnum" where
  "mathMin xs = foldl min2 Infinity xs"

definition mathMax :: "jsnum list \<Rightarrow> jsnum" where
  "mathMax xs = foldl max2 NegInfinity xs"

section \<open>git.ts: getDateRange\<close>

record DateRange =
  range_start :: "jsstring option"
  range_end :: "jsstring option"

text \<open>\<open>iso.split('T')[0]\<close>; an index past the end reads \<open>undefined\<close> (\<open>None\<close>).\<close>

definition datePart :: "jsstring \<Rightarrow> jsstring option" where
  "datePart isoString = elemAt (splitJS isoString (lit ''T'')) 0"

text \<open>
  A call \<open>f(...args)\<close> passes one argument for each element of the array. An engine
  accepts only so many arguments in one call, a bound \<open>argLimit\<close> that depends on the
  engine and on its stack; beyond it the call throws a \<open>RangeError\<close>.
\<close>

definition spreadCall :: "nat \<Rightarrow> ('a list \<Rightarrow> 'b) \<Rightarrow> 'a list \<Rightarrow> error + 'b" where
  "spreadCall argLimit f args = (if argLimit < length args then Inl RangeError else Inr (f args))"

text \<open>
  getDateRange, given the parser of the host, the argument limit of the engine and the
  reading \<open>now\<close> of the clock (\<open>new Date()\<close>). The property \<open>start\<close> is evaluated before
  \<open>end\<close>.
\<close>

definition getDateRange ::
  "(jsstring \<Rightarrow> jsnum) \<Rightarrow> nat \<Rightarrow> int \<Rightarrow> CommitInfo list \<Rightarrow> error + DateRange" where
  "getDateRange hostParse argLimit now commits =
     (if length commits = 0 then
        (case toISOString (timeClip (Number now)) of
           Inl e \<Rightarrow> Inl e
         | Inr isoToday \<Rightarrow> Inr \<lparr>range_start = datePart isoToday, range_end = datePart isoToday\<rparr>)
      else
        (let dates = map (\<lambda>c. newDate hostParse (date c)) commits
         in case spreadCall argLimit mathMin dates of
              Inl e \<Rightarrow> Inl e
            | Inr least \<Rightarrow>
                (case spreadCall argLimit mathMax dates of
                   Inl e \<Rightarrow> Inl e
                 | Inr greatest \<Rightarrow>
                     (let oldest = timeClip least;
                          newest = timeClip greatest
                      in case toISOString oldest of
                           Inl e \<Rightarrow> Inl e
                         | Inr isoOldest \<Rightarrow>
                             (case toISOString newest of
                                Inl e \<Rightarrow> Inl e
                              | Inr isoNewest \<Rightarrow>
                                  Inr \<lparr>range_start = datePart isoOldest,
                                       range_end = datePart isoNewest\<rparr>)))))"

text \<open>A commit record with the given date field, for the examples.\<close>

definition commitAt :: "string \<Rightarrow> CommitInfo" where
  "commitAt d = \<lparr>hash = lit ''a1b2c3d'', date = lit d, author = lit ''Ann'', message = lit ''Fix'', body = None\<rparr>"

text \<open>
  What it means for a string to be the written form of a calendar date, stated on the
  digits: \<open>isDecimal w n s\<close> says that \<open>s\<close> is the numeral of \<open>n\<close> in exactly \<open>w\<close> decimal
  digits; a year from 0 to 9999 is written with four digits, any other year with its sign
  and six digits; the date is the year, a hyphen, two digits of month, a hyphen and two
  digits of day.
\<close>

definition isDecimal :: "nat \<Rightarrow> int \<Rightarrow> jsstring \<Rightarrow> bool" where
  "isDecimal w n s \<longleftrightarrow> length s = w \<and> list_all isDigit s \<and> digitsVal s = n"

definition yearWritten :: "int \<Rightarrow> jsstring \<Rightarrow> bool" where
  "yearWritten y s \<longleftrightarrow>
     (if 0 \<le> y \<and> y \<le> 9999 then isDecimal 4 y s
      else if y < 0 then s \<noteq> [] \<and> hd s = ch CHR ''-'' \<and> isDecimal 6 (- y) (tl s)
      else s \<noteq> [] \<and> hd s = ch CHR ''+'' \<and> isDecimal 6 y (tl s))"

definition writtenDate :: "int \<Rightarrow> int \<Rightarrow> int \<Rightarrow> jsstring \<Rightarrow> bool" where
  "writtenDate y m d s \<longleftrightarrow>
     (let n = length s
      in 6 \<le> n \<and> yearWritten y (take (n - 6) s) \<and> s ! (n - 6) = ch CHR ''-''
         \<and> isDecimal 2 m (take 2 (drop (n - 5) s)) \<and> s ! (n - 3) = ch CHR ''-''
         \<and> isDecimal 2 d (drop (n - 2) s))"

text \<open>The instant \<open>t\<close> falls on the day \<open>d\<close> of the month \<open>m\<close> of the year \<open>y\<close>, in UTC.\<close>

definition onUtcDay :: "int \<Rightarrow> int \<Rightarrow> int \<Rightarrow> int \<Rightarrow> bool" where
  "onUtcDay y m d t \<longleftrightarrow>
     1 \<le> m \<and> m \<le> 12 \<and> 1 \<le> d \<and> d \<le> daysInMonth y m
     \<and> makeDay y m d * msPerDay \<le> t \<and> t < (makeDay y m d + 1) * msPerDay"

section \<open>Properties of split, join and trim\<close>

lemma splitNE_not_Nil: "splitNE sep s \<noteq> []"
  by (induction sep s rule: splitNE.induct) (auto split: list.splits)

lemma join_Cons: "ps \<noteq> [] \<Longrightarrow> joinJS (p # ps) sep = p @ sep @ joinJS ps sep"
  by (cases ps) auto

lemma join_consHead: "joinJS ((x # p) # ps) sep = x # joinJS (p # ps) sep"
  by (cases ps) auto

lemma splitNE_sep: "sep \<noteq> [] \<Longrightarrow> splitNE sep (sep @ rest) = [] # splitNE sep rest"
  by (cases sep) auto

lemma join_splitNE: "sep \<noteq> [] \<Longrightarrow> joinJS (splitNE sep s) sep = s"
proof (induction sep s rule: splitNE.induct)
  case (1 sep)
  then show ?case by simp
next
  case (2 sep x xs)
  show ?case
  proof (cases "prefix sep (x # xs)")
    case True
    then obtain r where r: "x # xs = sep @ r" by (auto simp: prefix_def)
    have "joinJS (splitNE sep (drop (length sep) (x # xs))) sep = drop (length sep) (x # xs)"
      using 2 True by simp
    then show ?thesis using 2(3) r
      by (simp add: splitNE_sep join_Cons splitNE_not_Nil del: joinJS.simps splitNE.simps)
  next
    case False
    have ih: "joinJS (splitNE sep xs) sep = xs" using 2 False by simp
    obtain p ps where s: "splitNE sep xs = p # ps"
      using splitNE_not_Nil [of sep xs] by (cases "splitNE sep xs") auto
    show ?thesis using False ih s join_consHead [of x p ps sep] by simp
  qed
qed

lemma join_splitJS: "joinJS (splitJS s sep) sep = s"
proof (cases "sep = []")
  case True
  have "joinJS (map (\<lambda>c. [c]) s) [] = s"
    by (induction s rule: induct_list012) auto
  then show ?thesis using True by (simp add: splitJS_def)
next
  case False
  then show ?thesis by (simp add: splitJS_def join_splitNE)
qed

lemma sepFree_weaken: "sepFree sep f follow \<Longrightarrow> sepFree sep f []"
proof (induction f)
  case Nil
  then show ?case by simp
next
  case (Cons x xs)
  have "\<not> prefix sep (x # xs)"
  proof
    assume "prefix sep (x # xs)"
    then have "prefix sep ((x # xs) @ follow)" by (rule prefix_prefix)
    with Cons.prems show False by simp
  qed
  with Cons show ?case by simp
qed

lemma sepFree_extend: "sepFree sep f sep \<Longrightarrow> sepFree sep f (sep @ rest)"
proof (induction f)
  case Nil
  then show ?case by simp
next
  case (Cons x xs)
  have "\<not> prefix sep (x # xs @ sep @ rest)"
  proof
    assume "prefix sep (x # xs @ sep @ rest)"
    then have "prefix sep ((x # xs @ sep) @ rest)" by simp
    then have "prefix sep (x # xs @ sep)"
      unfolding prefix_append by (auto simp: prefix_def)
    with Cons.prems show False by simp
  qed
  with Cons show ?case by simp
qed

lemma splitNE_sepFree:
  "sepFree sep f rest \<Longrightarrow> splitNE sep (f @ rest) = (f @ hd (splitNE sep rest)) # tl (splitNE sep rest)"
proof (induction f)
  case Nil
  then show ?case using splitNE_not_Nil [of sep rest] by simp
next
  case (Cons x xs)
  then show ?case by (simp split: list.splits)
qed

lemma splitNE_field:
  assumes "sep \<noteq> []" "sepFree sep f sep"
  shows "splitNE sep (f @ sep @ rest) = f # splitNE sep rest"
  using splitNE_sepFree [OF sepFree_extend [OF assms(2)], of rest] assms(1)
  by (simp add: splitNE_sep)

lemma splitNE_last:
  assumes "sepFree sep f follow"
  shows "splitNE sep f = [f]"
  using splitNE_sepFree [OF sepFree_weaken [OF assms]] by simp

lemma splitNE_join:
  "sep \<noteq> [] \<Longrightarrow> fs \<noteq> [] \<Longrightarrow> \<forall>f\<in>set fs. sepFree sep f sep \<Longrightarrow> splitNE sep (joinJS fs sep) = fs"
proof (induction fs sep rule: joinJS.induct)
  case (1 sep)
  then show ?case by simp
next
  case (2 p sep)
  then show ?case by (simp add: splitNE_last)
next
  case (3 p q ps sep)
  then show ?case by (simp add: splitNE_field)
qed

lemma splitNE_join_trailing:
  "sep \<noteq> [] \<Longrightarrow> fs \<noteq> [] \<Longrightarrow> \<forall>f\<in>set fs. sepFree sep f sep \<Longrightarrow>
     splitNE sep (joinJS fs sep @ sep) = fs @ [[]]"
proof (induction fs sep rule: joinJS.induct)
  case (1 sep)
  then show ?case by simp
next
  case (2 p sep)
  then show ?case using splitNE_field [of sep p "[]"] by simp
next
  case (3 p q ps sep)
  then show ?case by (simp add: splitNE_field)
qed

lemma dropWhile_all_conv: "(\<forall>c\<in>set (dropWhile P s). P c) \<longleftrightarrow> dropWhile P s = []"
proof (cases "dropWhile P s")
  case Nil
  show ?thesis unfolding Nil by simp
next
  case (Cons y ys)
  then have "\<not> P y" using hd_dropWhile [of P s] by simp
  then show ?thesis using Cons by auto
qed

lemma trim_eq_Nil: "trim s = [] \<longleftrightarrow> (\<forall>c\<in>set s. isWhiteSpace c)"
proof -
  have "trim s = [] \<longleftrightarrow> (\<forall>c\<in>set (dropWhile isWhiteSpace s). isWhiteSpace c)"
    unfolding trim_def by (simp add: dropWhile_eq_Nil_conv)
  also have "\<dots> \<longleftrightarrow> dropWhile isWhiteSpace s = []"
    by (rule dropWhile_all_conv)
  finally show ?thesis by (simp add: dropWhile_eq_Nil_conv)
qed

lemma dropWhile_rev_dropWhile:
  "dropWhile P (rev (dropWhile P (rev (dropWhile P s)))) = rev (dropWhile P (rev (dropWhile P s)))"
proof (cases "dropWhile P s")
  case Nil
  show ?thesis unfolding Nil by simp
next
  case (Cons y ys)
  then have ny: "\<not> P y" using hd_dropWhile [of P s] by simp
  have "dropWhile P (rev (y # ys)) = dropWhile P (rev ys) @ [y]"
    using ny by (simp add: dropWhile_append3)
  then show ?thesis using Cons ny by simp
qed

lemma trim_idem: "trim (trim s) = trim s"
proof -
  let ?t = "dropWhile isWhiteSpace (rev (dropWhile isWhiteSpace s))"
  have 1: "dropWhile isWhiteSpace (rev ?t) = rev ?t" by (rule dropWhile_rev_dropWhile)
  have 2: "dropWhile isWhiteSpace ?t = ?t" by (simp add: dropWhile_idem)
  show ?thesis unfolding trim_def by (simp add: 1 2)
qed

section \<open>Properties of parseGitLog\<close>

lemma mkCommit_ok: "4 \<le> length parts \<Longrightarrow> mkCommit parts fs = Inr (specRecord parts fs)"
  by (auto simp: mkCommit_def specRecord_def elemAt_def trimU_def Let_def)

lemma four_fields: "4 \<le> length xs \<Longrightarrow> \<exists>a b c d r. xs = a # b # c # d # r"
  by (auto simp: eval_nat_numeral Suc_le_length_iff)

lemma parseLoop_char:
  "parseLoop fs acc cs =
     Inr (acc @ map (\<lambda>c. specRecord (splitJS c fs) fs)
                    (filter (\<lambda>c. 4 \<le> length (splitJS c fs)) cs))"
  by (induction cs arbitrary: acc) (simp_all add: Let_def mkCommit_ok)

lemma parseGitLog_char:
  "parseGitLog raw cs fs =
     Inr (map (\<lambda>c. specRecord (splitJS c fs) fs)
              (filter (\<lambda>c. 4 \<le> length (splitJS c fs)) (rawCommitsOf raw cs)))"
  by (simp add: parseGitLog_def parseLoop_char)

lemma split_four:
  assumes "fs \<noteq> []" "sepFree fs f1 fs" "sepFree fs f2 fs" "sepFree fs f3 fs" "sepFree fs f4 fs"
  shows "splitNE fs (f1 @ fs @ f2 @ fs @ f3 @ fs @ f4 @ fs @ rest) = f1 # f2 # f3 # f4 # splitNE fs rest"
  using assms by (simp add: splitNE_field)

lemma split_four_only:
  assumes "fs \<noteq> []" "sepFree fs f1 fs" "sepFree fs f2 fs" "sepFree fs f3 fs" "sepFree fs f4 fs"
  shows "splitNE fs (f1 @ fs @ f2 @ fs @ f3 @ fs @ f4) = [f1, f2, f3, f4]"
  using assms by (simp add: splitNE_field splitNE_last)

lemma wellFormed_parts:
  assumes "fs \<noteq> []" "wellFormedRecord cs fs flds"
  shows "\<exists>ps. splitJS (joinJS flds fs) fs = take 4 flds @ ps \<and> joinJS ps fs = joinJS (drop 4 flds) fs"
proof -
  from assms(2) obtain f1 f2 f3 f4 rest where flds: "flds = f1 # f2 # f3 # f4 # rest"
    unfolding wellFormedRecord_def using four_fields [of flds] by blast
  with assms(2) have sf: "sepFree fs f1 fs" "sepFree fs f2 fs" "sepFree fs f3 fs" "sepFree fs f4 fs"
    unfolding wellFormedRecord_def by simp_all
  show ?thesis
  proof (cases rest)
    case Nil
    then show ?thesis using flds split_four_only [OF assms(1) sf] assms(1)
      by (simp add: splitJS_def)
  next
    case (Cons r rs)
    have "splitJS (joinJS flds fs) fs = f1 # f2 # f3 # f4 # splitNE fs (joinJS rest fs)"
      using flds Cons split_four [OF assms(1) sf, of "joinJS rest fs"] assms(1)
      by (simp add: splitJS_def)
    then show ?thesis using flds assms(1) by (simp add: join_splitNE)
  qed
qed

lemma specRecord_cong:
  assumes "4 \<le> length flds" "joinJS ps fs = joinJS (drop 4 flds) fs"
  shows "specRecord (take 4 flds @ ps) fs = specRecord flds fs"
  using assms by (simp add: specRecord_def nth_append)

lemma wellFormed_chunk:
  assumes "fs \<noteq> []" "wellFormedRecord cs fs flds"
  shows "4 \<le> length (splitJS (joinJS flds fs) fs)"
    and "specRecord (splitJS (joinJS flds fs) fs) fs = specRecord flds fs"
proof -
  from wellFormed_parts [OF assms] obtain ps where
    ps: "splitJS (joinJS flds fs) fs = take 4 flds @ ps" "joinJS ps fs = joinJS (drop 4 flds) fs"
    by blast
  have len: "4 \<le> length flds" using assms(2) by (simp add: wellFormedRecord_def)
  show "4 \<le> length (splitJS (joinJS flds fs) fs)" using ps(1) len by simp
  show "specRecord (splitJS (joinJS flds fs) fs) fs = specRecord flds fs"
    using ps specRecord_cong [OF len ps(2)] by simp
qed

lemma trim_Nil: "trim [] = []"
  by (simp add: trim_def)

lemma rawCommits_blob:
  assumes "cs \<noteq> []" "\<forall>c\<in>set chunks. sepFree cs c cs \<and> trim c \<noteq> []"
  shows "rawCommitsOf (joinJS chunks cs @ (if trailing then cs else [])) cs = chunks"
proof (cases "chunks = []")
  case True
  then show ?thesis using assms(1) splitNE_sep [of cs "[]"]
    by (simp add: rawCommitsOf_def splitJS_def trim_Nil)
next
  case False
  have sf: "\<forall>c\<in>set chunks. sepFree cs c cs" using assms(2) by blast
  have keep: "filter (\<lambda>c. trim c \<noteq> []) chunks = chunks" using assms(2) by (simp add: filter_id_conv)
  show ?thesis
  proof (cases trailing)
    case True
    then show ?thesis
      using splitNE_join_trailing [OF assms(1) False sf] assms(1) keep
      by (simp add: rawCommitsOf_def splitJS_def trim_Nil)
  next
    case False
    then show ?thesis
      using splitNE_join [OF assms(1) \<open>chunks \<noteq> []\<close> sf] assms(1) keep
      by (simp add: rawCommitsOf_def splitJS_def)
  qed
qed

lemma parseGitLog_wellFormed:
  assumes "cs \<noteq> []" "fs \<noteq> []" "list_all (wellFormedRecord cs fs) records"
  shows "parseGitLog (blobOf records cs fs trailing) cs fs = Inr (map (\<lambda>flds. specRecord flds fs) records)"
proof -
  let ?chunks = "map (\<lambda>flds. joinJS flds fs) records"
  have wf: "\<forall>flds\<in>set records. wellFormedRecord cs fs flds"
    using assms(3) by (simp add: list_all_iff)
  have "\<forall>c\<in>set ?chunks. sepFree cs c cs \<and> trim c \<noteq> []"
    using wf by (auto simp: wellFormedRecord_def)
  then have raw: "rawCommitsOf (blobOf records cs fs trailing) cs = ?chunks"
    unfolding blobOf_def by (rule rawCommits_blob [OF assms(1)])
  have keep: "filter (\<lambda>c. 4 \<le> length (splitJS c fs)) ?chunks = ?chunks"
    using wf wellFormed_chunk(1) [OF assms(2)] by (auto simp: filter_id_conv)
  have "map (\<lambda>c. specRecord (splitJS c fs) fs) ?chunks = map (\<lambda>flds. specRecord flds fs) records"
    using wf wellFormed_chunk(2) [OF assms(2)] by auto
  then show ?thesis by (simp only: parseGitLog_char raw keep)
qed

section \<open>Properties of the reply parser and the audience lookup\<close>

subsection \<open>The JSON parser consumes its input\<close>

lemma parseString_shorter:
  "parseString acc cs = Some (str, rest) \<Longrightarrow> length rest < length cs"
proof (induction cs arbitrary: acc str rest rule: length_induct)
  case (1 xs)
  note IH = "1.IH" [rule_format]
  from "1.prems" obtain c cs where xs: "xs = c # cs" by (cases xs) auto
  show ?case
  proof (cases "c = 0x22")
    case True
    then show ?thesis using "1.prems" xs by simp
  next
    case nq: False
    show ?thesis
    proof (cases "c = 0x5C")
      case True
      then obtain e r where cs: "cs = e # r" using "1.prems" nq xs by (cases cs) auto
      show ?thesis
      proof (cases "map_of escapes e")
        case (Some u)
        then have "parseString (u # acc) r = Some (str, rest)"
          using "1.prems" nq True cs xs by simp
        then have "length rest < length r" using IH [of r] xs cs by simp
        then show ?thesis using cs xs by simp
      next
        case None
        then have eu: "e = ch CHR ''u''" using "1.prems" nq True cs xs by (simp split: if_splits)
        then obtain h1 h2 h3 h4 r' where r: "r = h1 # h2 # h3 # h4 # r'"
          using "1.prems" nq True cs xs None by (auto split: list.splits)
        then obtain a b c' d where h: "hexVal h1 = Some a" "hexVal h2 = Some b"
            "hexVal h3 = Some c'" "hexVal h4 = Some d"
          using "1.prems" nq True cs xs None eu by (auto split: option.splits)
        then have "parseString ((a * 0x1000 + b * 0x100 + c' * 0x10 + d) # acc) r' = Some (str, rest)"
          using "1.prems" nq True cs xs None eu r by simp
        then have "length rest < length r'" using IH [of r'] xs cs r by simp
        then show ?thesis using cs r xs by simp
      qed
    next
      case False
      then have "parseString (c # acc) cs = Some (str, rest)"
        using "1.prems" nq xs by (simp split: if_splits)
      then have "length rest < length cs" using IH [of cs] xs by simp
      then show ?thesis using xs by simp
    qed
  qed
qed

lemma length_tl_le: "length (tl xs) \<le> length xs"
  by simp

lemma dropWhile_shorter: "takeWhile P xs \<noteq> [] \<Longrightarrow> length (dropWhile P xs) < length xs"
  by (cases xs) (auto simp: less_Suc_eq_le length_dropWhile_le split: if_splits)

lemma parseNumber_shorter:
  assumes "parseNumber s = Some (v, rest)"
  shows "length rest < length s"
proof -
  define s1 where "s1 = (if s \<noteq> [] \<and> hd s = 0x2D then tl s else s)"
  define s2 where "s2 = dropWhile isDigit s1"
  define hasFrac where "hasFrac \<longleftrightarrow> s2 \<noteq> [] \<and> hd s2 = 0x2E"
  define s3 where "s3 = (if hasFrac then dropWhile isDigit (tl s2) else s2)"
  define hasExp where "hasExp \<longleftrightarrow> s3 \<noteq> [] \<and> (hd s3 = ch CHR ''e'' \<or> hd s3 = ch CHR ''E'')"
  define s4 where "s4 = (if hasExp then tl s3 else s3)"
  define s5 where "s5 = (if hasExp \<and> s4 \<noteq> [] \<and> (hd s4 = 0x2D \<or> hd s4 = 0x2B) then tl s4 else s4)"
  define s6 where "s6 = (if hasExp then dropWhile isDigit s5 else s3)"
  have ip: "takeWhile isDigit s1 \<noteq> []" and rest: "rest = s6"
    using assms
    unfolding parseNumber_def Let_def s1_def [symmetric] s2_def [symmetric] hasFrac_def [symmetric]
      s3_def [symmetric] hasExp_def [symmetric] s4_def [symmetric] s5_def [symmetric]
      s6_def [symmetric]
    by (simp_all split: if_splits)
  have 1: "length s1 \<le> length s" by (simp add: s1_def)
  have 2: "length s2 < length s1" unfolding s2_def using ip by (rule dropWhile_shorter)
  have 3: "length s3 \<le> length s2"
    using length_dropWhile_le [of isDigit "tl s2"] by (auto simp: s3_def)
  have 4: "length s4 \<le> length s3" by (simp add: s4_def)
  have 5: "length s5 \<le> length s4" by (simp add: s5_def)
  have 6: "length s6 \<le> length s3"
    using length_dropWhile_le [of isDigit s5] 4 5 by (auto simp: s6_def)
  show ?thesis using rest 1 2 3 6 by simp
qed


lemma skipWs_le: "length (skipWs s) \<le> length s"
  by (simp add: skipWs_def length_dropWhile_le)

lemma parse_shorter:
  "(\<forall>v rest. parseValue s = Some (v, rest) \<longrightarrow> length rest < length s)"
  "(\<forall>v rest. parseElements accE sE = Some (v, rest) \<longrightarrow> length rest < length sE)"
  "(\<forall>v rest. parseMembers accM sM = Some (v, rest) \<longrightarrow> length rest < length sM)"
proof (induction s and accE sE and accM sM rule: parseValue_parseElements_parseMembers.induct)
  case (1 s)
  show ?case
  proof (intro allI impI)
    fix v rest
    assume p: "parseValue s = Some (v, rest)"
    then obtain c cs where sk: "skipWs s = c # cs"
      by (subst (asm) parseValue.simps) (auto split: list.splits)
    have le: "length (c # cs) \<le> length s" using skipWs_le [of s] sk by simp
    consider (obj0) "c = ch CHR ''{''" "skipWs cs \<noteq> [] \<and> hd (skipWs cs) = ch CHR ''}''"
      | (obj) "c = ch CHR ''{''" "\<not> (skipWs cs \<noteq> [] \<and> hd (skipWs cs) = ch CHR ''}'')"
      | (arr0) "c \<noteq> ch CHR ''{''" "c = ch CHR ''[''" "skipWs cs \<noteq> [] \<and> hd (skipWs cs) = ch CHR '']''"
      | (arr) "c \<noteq> ch CHR ''{''" "c = ch CHR ''[''" "\<not> (skipWs cs \<noteq> [] \<and> hd (skipWs cs) = ch CHR '']'')"
      | (str) "c \<noteq> ch CHR ''{''" "c \<noteq> ch CHR ''[''" "c = 0x22"
      | (other) "c \<noteq> ch CHR ''{''" "c \<noteq> ch CHR ''[''" "c \<noteq> 0x22"
      by blast
    then show "length rest < length s"
    proof cases
      case obj0
      then have "rest = tl (skipWs cs)" using p sk by (subst (asm) parseValue.simps) auto
      then show ?thesis using le skipWs_le [of cs] by simp
    next
      case obj
      then have "parseMembers [] cs = Some (v, rest)" using p sk
        by (subst (asm) parseValue.simps) auto
      then have "length rest < length cs" using "1.IH"(1) [OF sk obj(1)] obj(2) by blast
      then show ?thesis using le by simp
    next
      case arr0
      then have "rest = tl (skipWs cs)" using p sk by (subst (asm) parseValue.simps) auto
      then show ?thesis using le skipWs_le [of cs] by simp
    next
      case arr
      then have "parseElements [] cs = Some (v, rest)" using p sk
        by (subst (asm) parseValue.simps) auto
      then have "length rest < length cs" using "1.IH"(2) [OF sk arr(1) arr(2)] arr(3) by blast
      then show ?thesis using le by simp
    next
      case str
      then obtain x where "parseString [] cs = Some (x, rest)" using p sk
        by (subst (asm) parseValue.simps) (auto split: option.splits)
      then have "length rest < length cs" by (rule parseString_shorter)
      then show ?thesis using le by simp
    next
      case other
      have "rest = drop 4 (c # cs) \<or> rest = drop 5 (c # cs) \<or> parseNumber (c # cs) = Some (v, rest)"
        using p sk other by (subst (asm) parseValue.simps) (auto split: if_splits)
      then have "length rest < length (c # cs)"
        using parseNumber_shorter [of "c # cs" v rest] by auto
      then show ?thesis using le by simp
    qed
  qed
next
  case (2 acc s)
  show ?case
  proof (intro allI impI)
    fix v rest
    assume p: "parseElements acc s = Some (v, rest)"
    then obtain v1 r1 where v1: "parseValue s = Some (v1, r1)" and l1: "length r1 < length s"
      by (subst (asm) parseElements.simps) (auto split: option.splits if_splits)
    then obtain c r where sk: "skipWs r1 = c # r" using p
      by (subst (asm) parseElements.simps) (auto split: list.splits)
    have le: "length (c # r) \<le> length r1" using skipWs_le [of r1] sk by simp
    have "(c = ch CHR '','' \<and> parseElements (acc @ [v1]) r = Some (v, rest)) \<or> rest = r"
      using p v1 l1 sk by (subst (asm) parseElements.simps) (auto split: if_splits)
    then show "length rest < length s"
    proof
      assume a: "c = ch CHR '','' \<and> parseElements (acc @ [v1]) r = Some (v, rest)"
      then have "length rest < length r" using "2.IH"(2) [OF v1 _ l1 sk] by blast
      then show ?thesis using le l1 by simp
    next
      assume "rest = r"
      then show ?thesis using le l1 by simp
    qed
  qed
next
  case (3 acc s)
  show ?case
  proof (intro allI impI)
    fix v rest
    assume p: "parseMembers acc s = Some (v, rest)"
    then obtain q cs where sk: "skipWs s = q # cs" and q: "q = 0x22"
      by (subst (asm) parseMembers.simps) (auto split: list.splits if_splits)
    from p sk q obtain key afterKey where k: "parseString [] cs = Some (key, afterKey)"
      by (subst (asm) parseMembers.simps) (auto split: option.splits)
    from p sk q k obtain colon afterColon where
      ac: "skipWs afterKey = colon # afterColon" and
      cl: "colon = ch CHR '':'' \<and> length afterColon < length s"
      by (subst (asm) parseMembers.simps) (auto split: list.splits if_splits)
    from p sk q k ac cl obtain v1 r1 where
      v1: "parseValue afterColon = Some (v1, r1)" and l1: "length r1 < length afterColon"
      by (subst (asm) parseMembers.simps) (auto split: option.splits if_splits)
    from p sk q k ac cl v1 l1 obtain c r where sr: "skipWs r1 = c # r"
      by (subst (asm) parseMembers.simps) (auto split: list.splits)
    have le: "length (c # r) \<le> length r1" using skipWs_le [of r1] sr by simp
    have "(c = ch CHR '','' \<and> parseMembers (acc @ [(key, v1)]) r = Some (v, rest)) \<or> rest = r"
      using p sk q k ac cl v1 l1 sr
      by (subst (asm) parseMembers.simps) (auto split: if_splits)
    then show "length rest < length s"
    proof
      assume a: "c = ch CHR '','' \<and> parseMembers (acc @ [(key, v1)]) r = Some (v, rest)"
      have "length rest < length r"
        using "3.IH"(2) [OF sk q _ _ ac cl _ _ l1 sr] k v1 a by blast
      then show ?thesis using le l1 cl by simp
    next
      assume "rest = r"
      then show ?thesis using le l1 cl by simp
    qed
  qed
qed


lemma parseElements_unguarded:
  "parseElements acc s =
     (case parseValue s of
        None \<Rightarrow> None
      | Some (v, rest) \<Rightarrow>
          (case skipWs rest of
             [] \<Rightarrow> None
           | c # r \<Rightarrow>
               if c = ch CHR '','' then parseElements (acc @ [v]) r
               else if c = ch CHR '']'' then Some (JArr (acc @ [v]), r)
               else None))"
proof (cases "parseValue s")
  case None
  then show ?thesis by (subst parseElements.simps) simp
next
  case (Some p)
  obtain v rest where p: "p = (v, rest)" by (cases p)
  have "length rest < length s" using parse_shorter(1) Some p by blast
  then show ?thesis using Some p by (subst parseElements.simps) simp
qed

lemma parseMembers_unguarded:
  "parseMembers acc s =
     (case skipWs s of
        [] \<Rightarrow> None
      | q # cs \<Rightarrow>
          if q = 0x22 then
            (case parseString [] cs of
               None \<Rightarrow> None
             | Some (key, afterKey) \<Rightarrow>
                 (case skipWs afterKey of
                    [] \<Rightarrow> None
                  | colon # afterColon \<Rightarrow>
                      if colon = ch CHR '':'' then
                        (case parseValue afterColon of
                           None \<Rightarrow> None
                         | Some (v, rest) \<Rightarrow>
                             (case skipWs rest of
                                [] \<Rightarrow> None
                              | c # r \<Rightarrow>
                                  if c = ch CHR '','' then parseMembers (acc @ [(key, v)]) r
                                  else if c = ch CHR ''}'' then Some (JObj (acc @ [(key, v)]), r)
                                  else None))
                      else None))
          else None)"
proof -
  have g1: "length afterColon < length s"
    if "skipWs s = q # cs" "parseString [] cs = Some (key, afterKey)"
      "skipWs afterKey = colon # afterColon" for q cs key afterKey colon afterColon
  proof -
    have "length afterKey < length cs" using that(2) by (rule parseString_shorter)
    moreover have "length (colon # afterColon) \<le> length afterKey"
      using skipWs_le [of afterKey] that(3) by simp
    moreover have "length (q # cs) \<le> length s" using skipWs_le [of s] that(1) by simp
    ultimately show ?thesis by simp
  qed
  have g2: "length rest < length afterColon" if "parseValue afterColon = Some (v, rest)"
    for afterColon v rest
    using parse_shorter(1) that by blast
  show ?thesis
    by (subst parseMembers.simps)
      (auto split: list.splits option.splits simp: g1 g2)
qed

subsection \<open>The located span and the sections\<close>

lemma hasSpan_iff_ex:
  "hasSpan reply \<longleftrightarrow> (\<exists>pre mid post. reply = pre @ ch CHR ''{'' # mid @ ch CHR ''}'' # post)"
proof (induction reply)
  case Nil
  then show ?case by simp
next
  case (Cons c cs)
  show ?case
  proof (cases "c = ch CHR ''{''")
    case True
    have "ch CHR ''}'' \<in> set cs \<longleftrightarrow> (\<exists>pre mid post. c # cs = pre @ ch CHR ''{'' # mid @ ch CHR ''}'' # post)"
    proof
      assume "ch CHR ''}'' \<in> set cs"
      then obtain mid post where "cs = mid @ ch CHR ''}'' # post" by (auto simp: in_set_conv_decomp)
      then have "c # cs = [] @ ch CHR ''{'' # mid @ ch CHR ''}'' # post" using True by simp
      then show "\<exists>pre mid post. c # cs = pre @ ch CHR ''{'' # mid @ ch CHR ''}'' # post" by blast
    next
      assume "\<exists>pre mid post. c # cs = pre @ ch CHR ''{'' # mid @ ch CHR ''}'' # post"
      then obtain pre mid post where e: "c # cs = pre @ ch CHR ''{'' # mid @ ch CHR ''}'' # post" by blast
      then show "ch CHR ''}'' \<in> set cs" by (cases pre) auto
    qed
    then show ?thesis using True by simp
  next
    case False
    have "(\<exists>pre mid post. cs = pre @ ch CHR ''{'' # mid @ ch CHR ''}'' # post)
        \<longleftrightarrow> (\<exists>pre mid post. c # cs = pre @ ch CHR ''{'' # mid @ ch CHR ''}'' # post)"
    proof
      assume "\<exists>pre mid post. cs = pre @ ch CHR ''{'' # mid @ ch CHR ''}'' # post"
      then obtain pre mid post where "cs = pre @ ch CHR ''{'' # mid @ ch CHR ''}'' # post" by blast
      then have "c # cs = (c # pre) @ ch CHR ''{'' # mid @ ch CHR ''}'' # post" by simp
      then show "\<exists>pre mid post. c # cs = pre @ ch CHR ''{'' # mid @ ch CHR ''}'' # post" by blast
    next
      assume "\<exists>pre mid post. c # cs = pre @ ch CHR ''{'' # mid @ ch CHR ''}'' # post"
      then obtain pre mid post where e: "c # cs = pre @ ch CHR ''{'' # mid @ ch CHR ''}'' # post" by blast
      then obtain pre' where "pre = c # pre'" using False by (cases pre) auto
      with e have "cs = pre' @ ch CHR ''{'' # mid @ ch CHR ''}'' # post" by simp
      then show "\<exists>pre mid post. cs = pre @ ch CHR ''{'' # mid @ ch CHR ''}'' # post" by blast
    qed
    then show ?thesis using False Cons.IH by simp
  qed
qed

lemma hasSpan_dropWhile:
  "hasSpan reply \<longleftrightarrow> ch CHR ''}'' \<in> set (dropWhile (\<lambda>c. c \<noteq> ch CHR ''{'') reply)"
proof (induction reply)
  case Nil
  then show ?case by simp
next
  case (Cons c cs)
  then show ?case by (auto simp: ch_def)
qed

lemma rev_dropWhile_decomp:
  assumes "x \<in> set t"
  shows "\<exists>inner post. rev (dropWhile (\<lambda>c. c \<noteq> x) (rev t)) = inner @ [x]
           \<and> t = inner @ [x] @ post \<and> x \<notin> set post"
proof -
  let ?P = "\<lambda>c. c \<noteq> x"
  have ne: "dropWhile ?P (rev t) \<noteq> []" using assms by (auto simp: dropWhile_eq_Nil_conv)
  then have hd: "hd (dropWhile ?P (rev t)) = x" using hd_dropWhile [of ?P "rev t"] by simp
  obtain ys where ys: "dropWhile ?P (rev t) = x # ys" using ne hd by (cases "dropWhile ?P (rev t)") auto
  have "rev t = takeWhile ?P (rev t) @ x # ys" using ys takeWhile_dropWhile_id [of ?P "rev t"] by simp
  then have "t = rev ys @ [x] @ rev (takeWhile ?P (rev t))"
    by (metis append.assoc append_Cons append_Nil rev.simps(2) rev_append rev_rev_ident)
  moreover have "x \<notin> set (rev (takeWhile ?P (rev t)))" by (auto dest: set_takeWhileD)
  moreover have "rev (dropWhile ?P (rev t)) = rev ys @ [x]" using ys by simp
  ultimately show ?thesis by blast
qed

lemma matchBraces_None: "\<not> hasSpan reply \<Longrightarrow> matchBraces reply = None"
proof -
  assume n: "\<not> hasSpan reply"
  let ?f = "dropWhile (\<lambda>c. c \<noteq> ch CHR ''{'') reply"
  show ?thesis
  proof (cases "?f = []")
    case True
    then show ?thesis by (simp add: matchBraces_def)
  next
    case False
    have "ch CHR ''}'' \<notin> set ?f" using n by (simp add: hasSpan_dropWhile)
    then have "ch CHR ''}'' \<notin> set (tl ?f)" using False by (meson list.set_sel(2))
    then have "dropWhile (\<lambda>c. c \<noteq> ch CHR ''}'') (rev (tl ?f)) = []"
      by (auto simp: dropWhile_eq_Nil_conv)
    then show ?thesis by (simp add: matchBraces_def Let_def)
  qed
qed

lemma matchBraces_Some:
  assumes "hasSpan reply"
  shows "\<exists>pre inner post. reply = pre @ ch CHR ''{'' # inner @ ch CHR ''}'' # post
           \<and> ch CHR ''{'' \<notin> set pre \<and> ch CHR ''}'' \<notin> set post
           \<and> matchBraces reply = Some (ch CHR ''{'' # inner @ [ch CHR ''}''])"
proof -
  let ?P = "\<lambda>c. c \<noteq> ch CHR ''{''"
  let ?f = "dropWhile ?P reply"
  have in_f: "ch CHR ''}'' \<in> set ?f" using assms by (simp add: hasSpan_dropWhile)
  then have ne: "?f \<noteq> []" by (metis empty_iff empty_set)
  then have "hd ?f = ch CHR ''{''" using hd_dropWhile [of ?P reply] by simp
  then obtain t where t: "?f = ch CHR ''{'' # t" using ne by (cases ?f) auto
  have neq: "ch CHR ''}'' \<noteq> ch CHR ''{''" by (simp add: ch_def)
  have in_t: "ch CHR ''}'' \<in> set t" using in_f t neq by auto
  from rev_dropWhile_decomp [OF in_t] obtain inner post where
    d: "rev (dropWhile (\<lambda>c. c \<noteq> ch CHR ''}'') (rev t)) = inner @ [ch CHR ''}'']"
       "t = inner @ [ch CHR ''}''] @ post" "ch CHR ''}'' \<notin> set post" by blast
  have "reply = takeWhile ?P reply @ ?f" by simp
  then have "reply = takeWhile ?P reply @ ch CHR ''{'' # inner @ ch CHR ''}'' # post"
    using t d(2) by simp
  moreover have "ch CHR ''{'' \<notin> set (takeWhile ?P reply)" by (auto dest: set_takeWhileD)
  moreover have "matchBraces reply = Some (ch CHR ''{'' # inner @ [ch CHR ''}''])"
    using t d(1) by (simp add: matchBraces_def Let_def)
  ultimately show ?thesis using d(3) by blast
qed

lemma parseMembers_obj:
  "parseMembers acc s = Some (v, rest) \<Longrightarrow> \<exists>props. v = JObj props"
proof (induction acc s arbitrary: v rest
    rule: parseValue_parseElements_parseMembers.induct(3)
            [where P = "\<lambda>_. True" and Q = "\<lambda>_ _. True"])
  case (1 s)
  then show ?case by simp
next
  case (2 acc s)
  then show ?case by simp
next
  case (3 acc s)
  from "3.prems" show ?case
    apply (subst (asm) parseMembers.simps)
    apply (auto split: list.splits option.splits if_splits prod.splits)
    using "3.IH" apply blast
    done
qed

lemma skipWs_brace: "skipWs (ch CHR ''{'' # r) = ch CHR ''{'' # r"
  by (simp add: skipWs_def isJsonWs_def ch_def)

lemma parseValue_brace_obj:
  assumes "parseValue (ch CHR ''{'' # r) = Some (v, rest)"
  shows "\<exists>props. v = JObj props"
proof -
  have "parseValue (ch CHR ''{'' # r) =
          (if skipWs r \<noteq> [] \<and> hd (skipWs r) = ch CHR ''}''
           then Some (JObj [], tl (skipWs r)) else parseMembers [] r)"
    by (subst parseValue.simps) (simp add: skipWs_brace)
  with assms have "v = JObj [] \<or> parseMembers [] r = Some (v, rest)"
    by (simp split: if_splits)
  then show ?thesis using parseMembers_obj by blast
qed

lemma JSON_parse_obj:
  assumes "JSON_parse (ch CHR ''{'' # r) = Some data"
  shows "\<exists>props. data = JObj props"
proof -
  from assms obtain rest where "parseValue (ch CHR ''{'' # r) = Some (data, rest)"
    by (simp add: JSON_parse_def split: option.splits prod.splits if_splits)
  then show ?thesis by (rule parseValue_brace_obj)
qed

lemma matchBraces_hd: "matchBraces reply = Some span \<Longrightarrow> \<exists>r. span = ch CHR ''{'' # r"
  by (auto simp: matchBraces_def Let_def split: if_splits)

lemma sectionsOf_obj:
  "sectionsOf (JObj props) =
     Inr (map (\<lambda>(c, key). \<lparr>category = c, items = orEmpty (getProp props (lit key))\<rparr>) categoryKeys)"
  by (simp add: sectionsOf_def itemsOf_def categoryKeys_def)

lemma getProp_absent:
  assumes "(c, key) \<in> set categoryKeys" "lit key \<notin> fst ` set props"
  shows "getProp props (lit key) = JUndefined"
proof -
  have "map_of (rev props) (lit key) = None" using assms(2) by (simp add: map_of_eq_None_iff)
  moreover have "map_of (map (\<lambda>(k, v). (lit k, v)) objectPrototypeProps) (lit key) = None"
  proof -
    have "key = ''features'' \<or> key = ''fixes'' \<or> key = ''improvements'' \<or> key = ''other''"
      using assms(1) by (auto simp: categoryKeys_def)
    moreover have
      "map_of (map (\<lambda>(k, v). (lit k, v)) objectPrototypeProps) (lit ''features'') = None"
      "map_of (map (\<lambda>(k, v). (lit k, v)) objectPrototypeProps) (lit ''fixes'') = None"
      "map_of (map (\<lambda>(k, v). (lit k, v)) objectPrototypeProps) (lit ''improvements'') = None"
      "map_of (map (\<lambda>(k, v). (lit k, v)) objectPrototypeProps) (lit ''other'') = None"
      by (simp_all add: objectPrototypeProps_def lit_def)
    ultimately show ?thesis by blast
  qed
  ultimately show ?thesis by (simp add: getProp_def)
qed

lemma getProp_own: "map_of (rev props) key = Some v \<Longrightarrow> getProp props key = v"
  by (simp add: getProp_def)

lemma getProp_cong:
  "map_of (rev props') key = map_of (rev props) key \<Longrightarrow> getProp props' key = getProp props key"
  by (simp add: getProp_def)


lemma own_absent: "audience \<notin> fst ` set AUDIENCE_PROMPTS \<Longrightarrow> map_of (rev AUDIENCE_PROMPTS) audience = None"
  by (simp add: map_of_eq_None_iff)

lemma prototype_keys: "fst ` set (map (\<lambda>(k, v). (lit k, v)) objectPrototypeProps)
            = lit ` fst ` set objectPrototypeProps"
  by (simp add: image_image split_beta)

lemma prototype_absent: "audience \<notin> lit ` fst ` set objectPrototypeProps \<Longrightarrow>
   map_of (map (\<lambda>(k, v). (lit k, v)) objectPrototypeProps) audience = None"
  unfolding map_of_eq_None_iff prototype_keys by assumption

lemma general_truthy: "toBoolean (getProp AUDIENCE_PROMPTS (lit ''general''))" by code_simp


lemma getProp_unknown:
  assumes "audience \<notin> fst ` set AUDIENCE_PROMPTS"
    and "audience \<notin> lit ` fst ` set objectPrototypeProps"
  shows "getProp AUDIENCE_PROMPTS audience = JUndefined"
  unfolding getProp_def own_absent [OF assms(1)] prototype_absent [OF assms(2)] by simp

lemma audienceGuidance_unknown:
  assumes "audience \<notin> fst ` set AUDIENCE_PROMPTS"
    and "audience \<notin> lit ` fst ` set objectPrototypeProps"
  shows "audienceGuidance (Some audience) = getProp AUDIENCE_PROMPTS (lit ''general'')"
proof -
  have "audienceGuidance (Some audience)
          = (if toBoolean (getProp AUDIENCE_PROMPTS audience) then getProp AUDIENCE_PROMPTS audience
             else getProp AUDIENCE_PROMPTS (lit ''general''))"
    unfolding audienceGuidance_def Let_def by (simp only: option.case)
  also have "\<dots> = getProp AUDIENCE_PROMPTS (lit ''general'')"
    unfolding getProp_unknown [OF assms] by (simp only: toBoolean.simps if_False)
  finally show ?thesis .
qed

lemma audienceGuidance_general: "audienceGuidance (Some (lit ''general'')) = getProp AUDIENCE_PROMPTS (lit ''general'')"
  unfolding audienceGuidance_def Let_def by (simp only: option.case if_cancel general_truthy if_True)

text \<open>The two ways in which parseClaudeResponse fails.\<close>

lemma parseClaudeResponse_no_span:
  assumes "\<not> hasSpan reply"
  shows "parseClaudeResponse reply = Inl (Error ''Could not parse Claude response as JSON'')"
proof -
  from assms have "matchBraces reply = None" by (rule matchBraces_None)
  then show ?thesis by (simp add: parseClaudeResponse_def)
qed

lemma parseClaudeResponse_unparsable_span:
  assumes "matchBraces reply = Some span" and "JSON_parse span = None"
  shows "parseClaudeResponse reply = Inl SyntaxError"
  using assms by (simp add: parseClaudeResponse_def)

section \<open>Properties of the date model\<close>

lemma foldl_min2_NaN: "foldl min2 NaN xs = NaN"
  by (induction xs) (simp_all add: min2_def)

lemma foldl_max2_NaN: "foldl max2 NaN xs = NaN"
  by (induction xs) (simp_all add: max2_def)

lemma mathMin_NaN: "NaN \<in> set xs \<Longrightarrow> foldl min2 acc xs = NaN"
  by (induction xs arbitrary: acc) (auto simp: min2_def foldl_min2_NaN)

lemma mathMax_NaN: "NaN \<in> set xs \<Longrightarrow> foldl max2 acc xs = NaN"
  by (induction xs arbitrary: acc) (auto simp: max2_def foldl_max2_NaN)

lemma foldl_min2_Number:
  "foldl min2 (Number a) (map Number ts) = Number (Min (insert a (set ts)))"
proof (induction ts arbitrary: a)
  case Nil
  then show ?case by simp
next
  case (Cons t ts)
  have "min2 (Number a) (Number t) = Number (min a t)" by (simp add: min2_def min_def)
  moreover have "Min (insert (min a t) (set ts)) = Min (insert a (insert t (set ts)))"
    by (cases "set ts = {}") (simp_all add: min.assoc)
  ultimately show ?case using Cons.IH [of "min a t"] by simp
qed

lemma foldl_max2_Number:
  "foldl max2 (Number a) (map Number ts) = Number (Max (insert a (set ts)))"
proof (induction ts arbitrary: a)
  case Nil
  then show ?case by simp
next
  case (Cons t ts)
  have "max2 (Number a) (Number t) = Number (max a t)" by (simp add: max2_def max_def)
  moreover have "Max (insert (max a t) (set ts)) = Max (insert a (insert t (set ts)))"
    by (cases "set ts = {}") (simp_all add: max.assoc)
  ultimately show ?case using Cons.IH [of "max a t"] by simp
qed

lemma mathMin_Number: "ts \<noteq> [] \<Longrightarrow> mathMin (map Number ts) = Number (Min (set ts))"
  by (cases ts) (simp_all add: mathMin_def min2_def foldl_min2_Number)

lemma mathMax_Number: "ts \<noteq> [] \<Longrightarrow> mathMax (map Number ts) = Number (Max (set ts))"
  by (cases ts) (simp_all add: mathMax_def max2_def foldl_max2_Number)

lemma timeClip_cases: "timeClip v = NaN \<or> (\<exists>t. timeClip v = Number t \<and> \<bar>t\<bar> \<le> 8640000000000000)"
  by (cases v) (simp_all add: timeClip_def)

lemma timeClip_idem: "timeClip (timeClip v) = timeClip v"
  by (cases v) (simp_all add: timeClip_def)

lemma newDate_cases:
  "newDate hostParse s = NaN \<or> (\<exists>t. newDate hostParse s = Number t \<and> \<bar>t\<bar> \<le> 8640000000000000)"
  unfolding newDate_def by (rule timeClip_cases)

lemma timeClip_Number: "\<bar>t\<bar> \<le> 8640000000000000 \<Longrightarrow> timeClip (Number t) = Number t"
  by (simp add: timeClip_def)

lemma digitChar_digit: "digitChar n \<in> set (lit ''0123456789'')"
proof -
  have "nat (n mod 10) < length (lit ''0123456789'')" by (simp add: lit_def)
  then show ?thesis unfolding digitChar_def by (rule nth_mem)
qed

lemma digitChar_not_T: "ch CHR ''T'' \<noteq> digitChar n"
proof
  assume "ch CHR ''T'' = digitChar n"
  then have "ch CHR ''T'' \<in> set (lit ''0123456789'')" using digitChar_digit [of n] by simp
  then show False by (simp add: lit_def ch_def)
qed

lemma utcDate_no_T: "ch CHR ''T'' \<notin> set (utcDate t)"
proof -
  have pads: "ch CHR ''T'' \<notin> set (pad2 n)" "ch CHR ''T'' \<notin> set (pad4 n)"
    "ch CHR ''T'' \<notin> set (pad6 n)" for n
    by (simp_all add: pad2_def pad4_def pad6_def digitChar_not_T)
  have signs: "ch CHR ''T'' \<notin> set (lit ''-'')" "ch CHR ''T'' \<notin> set (lit ''+'')"
    by (simp_all add: lit_def ch_def)
  have "ch CHR ''T'' \<notin> set (yearString y @ lit ''-'' @ pad2 m @ lit ''-'' @ pad2 d)" for y m d
    using pads signs by (simp add: yearString_def)
  then show ?thesis by (simp add: utcDate_def split: prod.splits)
qed

lemma sepFree_single: "x \<notin> set f \<Longrightarrow> sepFree [x] f follow"
  by (induction f) auto


lemma datePart_toISOString:
  "toISOString (Number t) = Inr isoString \<Longrightarrow> datePart isoString = Some (utcDate t)"
proof -
  assume "toISOString (Number t) = Inr isoString"
  then have i: "isoString = utcDate t @ lit ''T'' @ utcTime t" by (simp add: toISOString_def)
  have T: "lit ''T'' = [ch CHR ''T'']" by (simp add: lit_def ch_def)
  have "sepFree [ch CHR ''T''] (utcDate t) (lit ''T'' @ utcTime t)"
    using utcDate_no_T by (rule sepFree_single)
  then have "splitNE [ch CHR ''T''] (utcDate t @ lit ''T'' @ utcTime t)
         = (utcDate t @ hd (splitNE [ch CHR ''T''] (lit ''T'' @ utcTime t)))
           # tl (splitNE [ch CHR ''T''] (lit ''T'' @ utcTime t))"
    by (rule splitNE_sepFree)
  moreover have "splitNE [ch CHR ''T''] (lit ''T'' @ utcTime t) = [] # splitNE [ch CHR ''T''] (utcTime t)"
    unfolding T by simp
  ultimately show ?thesis unfolding i by (simp add: datePart_def splitJS_def elemAt_def T)
qed

lemma newDate_Number_bound: "newDate hostParse s = Number t \<Longrightarrow> \<bar>t\<bar> \<le> 8640000000000000"
  using newDate_cases [of hostParse s] by auto

lemma instants_exist:
  assumes "\<forall>c\<in>set commits. newDate hostParse (date c) \<noteq> NaN"
  shows "\<exists>ts. map (\<lambda>c. newDate hostParse (date c)) commits = map Number ts"
  using assms
proof (induction commits)
  case Nil
  then show ?case by simp
next
  case (Cons c cs)
  then obtain ts where ts: "map (\<lambda>c. newDate hostParse (date c)) cs = map Number ts" by auto
  from Cons.prems obtain t where "newDate hostParse (date c) = Number t"
    using newDate_cases [of hostParse "date c"] by auto
  with ts have "map (\<lambda>c. newDate hostParse (date c)) (c # cs) = map Number (t # ts)" by simp
  then show ?case by blast
qed

lemma getDateRange_parsed:
  assumes "commits \<noteq> []" and "length commits \<le> argLimit"
    and "map (\<lambda>c. newDate hostParse (date c)) commits = map Number ts"
  shows "getDateRange hostParse argLimit now commits =
           Inr \<lparr>range_start = Some (utcDate (Min (set ts))), range_end = Some (utcDate (Max (set ts)))\<rparr>"
proof -
  have ne: "ts \<noteq> []" using assms by auto
  have len: "length ts = length commits" using assms(3) by (metis length_map)
  have bound: "\<bar>t\<bar> \<le> 8640000000000000" if "t \<in> set ts" for t
  proof -
    from that have "Number t \<in> set (map (\<lambda>c. newDate hostParse (date c)) commits)"
      unfolding assms(3) by simp
    then obtain c where "c \<in> set commits" "newDate hostParse (date c) = Number t" by auto
    then show ?thesis using newDate_Number_bound by blast
  qed
  have "Min (set ts) \<in> set ts" "Max (set ts) \<in> set ts" using ne by simp_all
  then have clip: "timeClip (Number (Min (set ts))) = Number (Min (set ts))"
    "timeClip (Number (Max (set ts))) = Number (Max (set ts))"
    using bound by (simp_all add: timeClip_Number)
  obtain i1 where i1: "toISOString (Number (Min (set ts))) = Inr i1" by (simp add: toISOString_def)
  obtain i2 where i2: "toISOString (Number (Max (set ts))) = Inr i2" by (simp add: toISOString_def)
  have sp: "spreadCall argLimit mathMin (map Number ts) = Inr (Number (Min (set ts)))"
    "spreadCall argLimit mathMax (map Number ts) = Inr (Number (Max (set ts)))"
    using assms(2) ne by (simp_all add: spreadCall_def len mathMin_Number mathMax_Number)
  show ?thesis
    using assms(1)
    by (simp add: getDateRange_def Let_def assms(3) sp clip i1 i2
        datePart_toISOString [OF i1] datePart_toISOString [OF i2])
qed

lemma getDateRange_too_long:
  assumes "argLimit < length commits"
  shows "getDateRange hostParse argLimit now commits = Inl RangeError"
proof -
  have "commits \<noteq> []" using assms by auto
  then show ?thesis using assms by (simp add: getDateRange_def Let_def spreadCall_def)
qed

lemma getDateRange_NaN:
  assumes "c \<in> set commits" and "newDate hostParse (date c) = NaN"
  shows "getDateRange hostParse argLimit now commits = Inl RangeError"
proof (cases "argLimit < length commits")
  case True
  then show ?thesis by (rule getDateRange_too_long)
next
  case False
  have ne: "commits \<noteq> []" using assms(1) by auto
  have "NaN \<in> set (map (\<lambda>c. newDate hostParse (date c)) commits)"
    using assms by (metis (mono_tags, lifting) image_eqI list.set_map)
  then have "mathMin (map (\<lambda>c. newDate hostParse (date c)) commits) = NaN"
    "mathMax (map (\<lambda>c. newDate hostParse (date c)) commits) = NaN"
    unfolding mathMin_def mathMax_def by (rule mathMin_NaN, rule mathMax_NaN)
  then show ?thesis using ne False
    by (simp add: getDateRange_def Let_def spreadCall_def timeClip_def toISOString_def)
qed

lemma getDateRange_empty:
  assumes "\<bar>now\<bar> \<le> 8640000000000000"
  shows "getDateRange hostParse argLimit now [] =
           Inr \<lparr>range_start = Some (utcDate now), range_end = Some (utcDate now)\<rparr>"
proof -
  obtain i where i: "toISOString (Number now) = Inr i" by (simp add: toISOString_def)
  show ?thesis using assms
    by (simp add: getDateRange_def timeClip_Number i datePart_toISOString [OF i])
qed

lemma getDateRange_set:
  assumes "set commits' = set commits" and "length commits' = length commits"
  shows "getDateRange hostParse argLimit now commits' = getDateRange hostParse argLimit now commits"
proof (cases "commits = []")
  case True
  then show ?thesis using assms by simp
next
  case False
  then have ne': "commits' \<noteq> []" using assms by auto
  show ?thesis
  proof (cases "argLimit < length commits")
    case True
    then show ?thesis using assms(2) by (simp add: getDateRange_too_long)
  next
    case short: False
    then have le: "length commits \<le> argLimit" and le': "length commits' \<le> argLimit"
      using assms(2) by simp_all
    show ?thesis
    proof (cases "\<exists>c\<in>set commits. newDate hostParse (date c) = NaN")
      case True
      then obtain c where c: "c \<in> set commits" "newDate hostParse (date c) = NaN" by blast
      then have "c \<in> set commits'" using assms by simp
      then show ?thesis using c getDateRange_NaN by metis
    next
      case nonan: False
      then obtain ts where ts: "map (\<lambda>c. newDate hostParse (date c)) commits = map Number ts"
        using instants_exist [of commits hostParse] by auto
      from nonan assms obtain ts' where
        ts': "map (\<lambda>c. newDate hostParse (date c)) commits' = map Number ts'"
        using instants_exist [of commits' hostParse] by auto
      have "Number ` set ts = Number ` set ts'"
      proof -
        have "Number ` set ts = set (map (\<lambda>c. newDate hostParse (date c)) commits)"
          unfolding ts by simp
        also have "\<dots> = set (map (\<lambda>c. newDate hostParse (date c)) commits')"
          using assms by simp
        also have "\<dots> = Number ` set ts'" unfolding ts' by simp
        finally show ?thesis .
      qed
      then have "set ts = set ts'" by (simp add: inj_image_eq_iff inj_on_def)
      then show ?thesis
        using getDateRange_parsed [OF False le ts] getDateRange_parsed [OF ne' le' ts'] by simp
    qed
  qed
qed

lemma utcDate_truncates: "utcDate t = utcDate (t div msPerDay * msPerDay)"
  by (simp add: utcDate_def msPerDay_def)

lemma Min_is: "finite S \<Longrightarrow> t \<in> S \<Longrightarrow> \<forall>t'\<in>S. t \<le> t' \<Longrightarrow> Min S = (t::int)"
  by (simp add: Min_eqI)

lemma Max_is: "finite S \<Longrightarrow> t \<in> S \<Longrightarrow> \<forall>t'\<in>S. t' \<le> t \<Longrightarrow> Max S = (t::int)"
  by (simp add: Max_eqI)

lemma parseYMD_length: "parseYMD s = Some r \<Longrightarrow> length s = 10"
  by (auto simp: parseYMD_def split: option.splits if_splits)

lemma parseHMS_length: "parseHMS s = Some r \<Longrightarrow> length s = 8"
  by (auto simp: parseHMS_def split: option.splits if_splits)

lemma parseOffset_no_dot:
  assumes "parseOffset z = Some off"
  shows "\<not> (4 \<le> length z \<and> z ! 0 = ch CHR ''.'')"
proof -
  have "z = lit ''Z'' \<or> (z ! 0 = ch CHR ''+'' \<or> z ! 0 = ch CHR ''-'')"
    using assms by (auto simp: parseOffset_def split: if_splits)
  then show ?thesis by (auto simp: lit_def ch_def)
qed

lemma isoParse_offset:
  assumes "parseYMD ymd = Some (y, m, d)" and "parseHMS hms = Some tod"
    and "parseOffset zone = Some off"
  shows "isoParse (ymd @ lit ''T'' @ hms @ zone)
           = Some (makeDay y m d * msPerDay + tod - off * 60000)"
proof -
  let ?s = "ymd @ lit ''T'' @ hms @ zone"
  have l1: "length ymd = 10" using assms(1) by (rule parseYMD_length)
  have l2: "length hms = 8" using assms(2) by (rule parseHMS_length)
  have T: "lit ''T'' = [ch CHR ''T'']" by (simp add: lit_def ch_def)
  have a: "length ?s \<noteq> 10" "19 \<le> length ?s" "?s ! 10 = ch CHR ''T''"
    "take 10 ?s = ymd" "take 8 (drop 11 ?s) = hms" "drop 19 ?s = zone"
    using l1 l2 by (simp_all add: T nth_append)
  have nd: "(4 \<le> length zone \<and> zone ! 0 = ch CHR ''.''
              \<and> list_all isDigit (take 3 (drop 1 zone))) = False"
    using parseOffset_no_dot [OF assms(3)] by blast
  show ?thesis
    unfolding isoParse_def a Let_def nd
    using a(1,2,3) assms by simp
qed

subsection \<open>The calendar\<close>

lemma div_bounds:
  assumes "0 < (n::int)" and "q = x div n"
  shows "n * q \<le> x \<and> x < n * q + n"
proof -
  have "x = n * (x div n) + x mod n" by simp
  moreover have "0 \<le> x mod n" "x mod n < n" using assms(1) by simp_all
  ultimately show ?thesis unfolding assms(2) by (metis add_le_cancel_left add_less_cancel_left add.right_neutral)
qed

lemma dayFromYear_bounds:
  assumes "k = y - 1970"
  shows "146097 * k - 506 \<le> 400 * dayFromYear y \<and> 400 * dayFromYear y \<le> 146097 * k + 589"
proof -
  define A where "A = (y - 1969) div 4"
  define B where "B = (y - 1901) div 100"
  define C where "C = (y - 1601) div 400"
  define D where "D = dayFromYear y"
  have a: "4 * A \<le> y - 1969" "y - 1969 < 4 * A + 4"
    using div_bounds [of 4 A "y - 1969"] A_def by simp_all
  have b: "100 * B \<le> y - 1901" "y - 1901 < 100 * B + 100"
    using div_bounds [of 100 B "y - 1901"] B_def by simp_all
  have c: "400 * C \<le> y - 1601" "y - 1601 < 400 * C + 400"
    using div_bounds [of 400 C "y - 1601"] C_def by simp_all
  have d: "D = 365 * k + A - B + C"
    by (simp add: D_def dayFromYear_def A_def B_def C_def assms)
  have "146097 * k - 506 \<le> 400 * D \<and> 400 * D \<le> 146097 * k + 589"
    using assms a b c d by linarith
  then show ?thesis by (simp only: D_def)
qed

lemma succ_div:
  assumes "0 < (n::int)"
  shows "(x + 1) div n = x div n + (if (x + 1) mod n = 0 then 1 else 0)"
proof -
  define q where "q = x div n"
  define r where "r = x mod n"
  have x: "x = n * q + r" by (simp add: q_def r_def)
  have r: "0 \<le> r" "r < n" using assms by (simp_all add: r_def)
  show ?thesis
  proof (cases "r + 1 < n")
    case True
    have e: "x + 1 = n * q + (r + 1)" using x by simp
    have "(x + 1) div n = q" using e r True by (intro int_div_pos_eq [of _ n q "r + 1"]) simp_all
    moreover have "(x + 1) mod n = r + 1" using e r True by (intro int_mod_pos_eq [of _ n q "r + 1"]) simp_all
    ultimately show ?thesis using r by (simp add: q_def)
  next
    case False
    then have rn: "r + 1 = n" using r by simp
    have e: "x + 1 = n * (q + 1) + 0" using x rn by (simp add: algebra_simps)
    have "(x + 1) div n = q + 1" using e assms by (intro int_div_pos_eq [of _ n "q + 1" 0]) simp_all
    moreover have "(x + 1) mod n = 0" using e assms by (intro int_mod_pos_eq [of _ n "q + 1" 0]) simp_all
    ultimately show ?thesis by (simp add: q_def)
  qed
qed

lemma yearFromDay_spec:
  "dayFromYear (yearFromDay d) \<le> d \<and> d < dayFromYear (yearFromDay d + 1)"
proof -
  define e where "e = (400 * d) div 146097"
  define ye where "ye = 1970 + e"
  define k1 where "k1 = e - 1"
  define k2 where "k2 = e + 2"
  define lo where "lo = dayFromYear (ye - 1)"
  define hi where "hi = dayFromYear (ye + 1 + 1)"
  have e: "146097 * e \<le> 400 * d" "400 * d < 146097 * e + 146097"
    using div_bounds [of 146097 e "400 * d"] e_def by simp_all
  have "400 * lo \<le> 146097 * k1 + 589"
    unfolding lo_def using dayFromYear_bounds [of k1 "ye - 1"] by (simp add: ye_def k1_def)
  then have lo: "lo \<le> d" using e k1_def by linarith
  have "146097 * k2 - 506 \<le> 400 * hi"
    unfolding hi_def using dayFromYear_bounds [of k2 "ye + 1 + 1"] by (simp add: ye_def k2_def)
  then have hi: "d < hi" using e k2_def by linarith
  have "yearFromDay d = (if d < dayFromYear ye then ye - 1
         else if dayFromYear (ye + 1) \<le> d then ye + 1 else ye)"
    by (simp add: yearFromDay_def Let_def ye_def e_def)
  then show ?thesis using lo hi unfolding lo_def hi_def by auto
qed

lemma daysInYear: "dayFromYear (y + 1) = dayFromYear y + (if isLeap y then 366 else 365)"
proof -
  have "(y + (- 492) * 4) mod 4 = y mod 4" by (rule mod_mult_self1)
  then have m4: "(y - 1969 + 1) mod 4 = y mod 4" by simp
  have "(y + (- 19) * 100) mod 100 = y mod 100" by (rule mod_mult_self1)
  then have m100: "(y - 1901 + 1) mod 100 = y mod 100" by simp
  have "(y + (- 4) * 400) mod 400 = y mod 400" by (rule mod_mult_self1)
  then have m400: "(y - 1601 + 1) mod 400 = y mod 400" by simp
  have s4: "y + 1 - 1969 = y - 1969 + 1" and s100: "y + 1 - 1901 = y - 1901 + 1"
    and s400: "y + 1 - 1601 = y - 1601 + 1" by simp_all
  have 1: "(y + 1 - 1969) div 4 = (y - 1969) div 4 + (if y mod 4 = 0 then 1 else 0)"
    unfolding s4 using succ_div [of 4 "y - 1969"] by (simp only: m4)
  have 2: "(y + 1 - 1901) div 100 = (y - 1901) div 100 + (if y mod 100 = 0 then 1 else 0)"
    unfolding s100 using succ_div [of 100 "y - 1901"] by (simp only: m100)
  have 3: "(y + 1 - 1601) div 400 = (y - 1601) div 400 + (if y mod 400 = 0 then 1 else 0)"
    unfolding s400 using succ_div [of 400 "y - 1601"] by (simp only: m400)
  have 4: "y mod 400 = 0 \<Longrightarrow> y mod 100 = 0" "y mod 100 = 0 \<Longrightarrow> y mod 4 = 0"
    using mod_mod_cancel [of 100 400 y] mod_mod_cancel [of 4 100 y] by simp_all
  define A where "A = (y - 1969) div 4"
  define B where "B = (y - 1901) div 100"
  define C where "C = (y - 1601) div 400"
  define a where "a = (if y mod 4 = 0 then 1 else 0 :: int)"
  define b where "b = (if y mod 100 = 0 then 1 else 0 :: int)"
  define c where "c = (if y mod 400 = 0 then 1 else 0 :: int)"
  have "dayFromYear (y + 1) = 365 * (y + 1 - 1970) + (A + a) - (B + b) + (C + c)"
    unfolding dayFromYear_def 1 2 3 A_def B_def C_def a_def b_def c_def by (rule refl)
  moreover have "dayFromYear y = 365 * (y - 1970) + A - B + C"
    unfolding dayFromYear_def A_def B_def C_def by (rule refl)
  moreover have "a - b + c = (if isLeap y then 1 else 0)"
    unfolding a_def b_def c_def isLeap_def using 4 by (cases "y mod 400 = 0"; cases "y mod 100 = 0"; cases "y mod 4 = 0") simp_all
  ultimately show ?thesis by (simp add: algebra_simps split: if_splits)
qed

lemma month_table:
  assumes "0 \<le> w" and "w < 365 + l" and "l = 0 \<or> l = 1"
  shows "\<exists>m. length (filter (\<lambda>s. s \<le> w)
                 [0, 31, 59 + l, 90 + l, 120 + l, 151 + l, 181 + l, 212 + l, 243 + l, 273 + l,
                  304 + l, 334 + (l::int)]) = m
             \<and> 1 \<le> m \<and> m \<le> 12
             \<and> 1 \<le> w - [0, 31, 59 + l, 90 + l, 120 + l, 151 + l, 181 + l, 212 + l, 243 + l,
                          273 + l, 304 + l, 334 + l] ! (m - 1) + 1
             \<and> w - [0, 31, 59 + l, 90 + l, 120 + l, 151 + l, 181 + l, 212 + l, 243 + l,
                      273 + l, 304 + l, 334 + l] ! (m - 1) + 1
                 \<le> (if m = 2 then 28 + l else if m = 4 \<or> m = 6 \<or> m = 9 \<or> m = 11 then 30 else 31)"
proof -
  consider "w < 31" | "31 \<le> w \<and> w < 59 + l" | "59 + l \<le> w \<and> w < 90 + l"
    | "90 + l \<le> w \<and> w < 120 + l" | "120 + l \<le> w \<and> w < 151 + l"
    | "151 + l \<le> w \<and> w < 181 + l" | "181 + l \<le> w \<and> w < 212 + l"
    | "212 + l \<le> w \<and> w < 243 + l" | "243 + l \<le> w \<and> w < 273 + l"
    | "273 + l \<le> w \<and> w < 304 + l" | "304 + l \<le> w \<and> w < 334 + l"
    | "334 + l \<le> w" by linarith
  then show ?thesis using assms by cases auto
qed

lemma civilFromDay_valid:
  assumes "civilFromDay d = (y, m, dd)"
  shows "1 \<le> m \<and> m \<le> 12 \<and> 1 \<le> dd \<and> dd \<le> daysInMonth y m \<and> makeDay y m dd = d"
proof -
  define l where "l = (if isLeap y then 1 else 0 :: int)"
  define w where "w = d - dayFromYear y"
  define starts where "starts = [0, 31, 59 + l, 90 + l, 120 + l, 151 + l, 181 + l, 212 + l,
      243 + l, 273 + l, 304 + l, 334 + l]"
  have y: "y = yearFromDay d" using assms by (simp add: civilFromDay_def Let_def)
  have st: "monthStarts (isLeap y) = starts" by (simp add: monthStarts_def starts_def l_def)
  have w0: "0 \<le> w" using yearFromDay_spec [of d] by (simp add: w_def y)
  have "d < dayFromYear y + (if isLeap y then 366 else 365)"
    using yearFromDay_spec [of d] daysInYear [of y] by (simp add: y)
  then have w1: "w < 365 + l" by (simp add: w_def l_def split: if_splits)
  have l: "l = 0 \<or> l = 1" by (simp add: l_def)
  from month_table [OF w0 w1 l] obtain k where
    k: "length (filter (\<lambda>s. s \<le> w) starts) = k" "1 \<le> k" "k \<le> 12"
       "1 \<le> w - starts ! (k - 1) + 1"
       "w - starts ! (k - 1) + 1
          \<le> (if k = 2 then 28 + l else if k = 4 \<or> k = 6 \<or> k = 9 \<or> k = 11 then 30 else 31)"
    unfolding starts_def by blast
  have m: "m = int k" and dd: "dd = w - starts ! (k - 1) + 1"
    using assms k(1) by (simp_all add: civilFromDay_def Let_def y [symmetric] st w_def [symmetric])
  have n: "nat (m - 1) = k - 1" using m k(2) by simp
  have dim: "daysInMonth y m
      = (if k = 2 then 28 + l else if k = 4 \<or> k = 6 \<or> k = 9 \<or> k = 11 then 30 else 31)"
    using m by (auto simp: daysInMonth_def l_def)
  have "makeDay y m dd = d" by (simp add: makeDay_def st n dd w_def)
  then show ?thesis using k(2,3,4,5) m dd dim by simp
qed


subsection \<open>The written form of a date\<close>

lemma digitChar_val: "isDigit (digitChar n) \<and> uint (digitChar n) = 48 + n mod 10"
proof -
  define k where "k = n mod 10"
  have "0 \<le> k" "k < 10" by (simp_all add: k_def)
  then have "k = 0 \<or> k = 1 \<or> k = 2 \<or> k = 3 \<or> k = 4 \<or> k = 5 \<or> k = 6 \<or> k = 7 \<or> k = 8 \<or> k = 9"
    by presburger
  then have "isDigit (lit ''0123456789'' ! nat k) \<and> uint (lit ''0123456789'' ! nat k) = 48 + k"
    by (elim disjE) (simp_all add: lit_def isDigit_def)
  then show ?thesis by (simp add: digitChar_def k_def)
qed

lemma small_div: "0 \<le> (n::int) \<Longrightarrow> n < 10 * b \<Longrightarrow> n div 10 < b"
  by linarith

lemma digit_step: "0 \<le> (n::int) \<Longrightarrow> 10 * (n div 10) + n mod 10 = n"
  by simp

lemma isDecimal_pad2:
  assumes "0 \<le> n" and "n < 100"
  shows "isDecimal 2 n (pad2 n)"
proof -
  define a where "a = n div 10"
  have a: "0 \<le> a" "a < 10" using assms by (simp_all add: a_def)
  then have "a mod 10 = a" by simp
  moreover have "10 * a + n mod 10 = n" by (simp add: a_def)
  ultimately show ?thesis
    by (simp add: isDecimal_def pad2_def digitsVal_def digitChar_val a_def)
qed

lemma isDecimal_pad4:
  assumes "0 \<le> n" and "n \<le> 9999"
  shows "isDecimal 4 n (pad4 n)"
proof -
  define a where "a = n div 10"
  define b where "b = n div 100"
  define c where "c = n div 1000"
  have ba: "b = a div 10" and cb: "c = b div 10"
    by (simp_all add: a_def b_def c_def zdiv_zmult2_eq)
  have c: "0 \<le> c" "c < 10" using assms by (simp_all add: c_def)
  then have "c mod 10 = c" by simp
  moreover have "10 * c + b mod 10 = b" "10 * b + a mod 10 = a" "10 * a + n mod 10 = n"
    by (simp_all add: a_def ba cb)
  ultimately have "10 * (10 * (10 * (c mod 10) + b mod 10) + a mod 10) + n mod 10 = n"
    by simp
  then show ?thesis
    by (simp add: isDecimal_def pad4_def digitsVal_def digitChar_val
        a_def [symmetric] b_def [symmetric] c_def [symmetric])
qed

lemma isDecimal_pad6:
  assumes "0 \<le> n" and "n < 1000000"
  shows "isDecimal 6 n (pad6 n)"
proof -
  define a where "a = n div 10"
  define b where "b = n div 100"
  define c where "c = n div 1000"
  define d where "d = n div 10000"
  define e where "e = n div 100000"
  have ba: "b = a div 10" and cb: "c = b div 10" and dc: "d = c div 10" and ed: "e = d div 10"
    by (simp_all add: a_def b_def c_def d_def e_def zdiv_zmult2_eq)
  have e: "0 \<le> e" "e < 10" using assms by (simp_all add: e_def)
  then have "e mod 10 = e" by simp
  moreover have "10 * e + d mod 10 = d" "10 * d + c mod 10 = c"
    "10 * c + b mod 10 = b" "10 * b + a mod 10 = a" "10 * a + n mod 10 = n"
    by (simp_all add: a_def ba cb dc ed)
  ultimately have
    "10 * (10 * (10 * (10 * (10 * (e mod 10) + d mod 10) + c mod 10) + b mod 10) + a mod 10)
       + n mod 10 = n"
    by simp
  then show ?thesis
    by (simp add: isDecimal_def pad6_def digitsVal_def digitChar_val
        a_def [symmetric] b_def [symmetric] c_def [symmetric] d_def [symmetric] e_def [symmetric])
qed


lemma yearWritten_yearString:
  assumes "\<bar>y\<bar> < 1000000"
  shows "yearWritten y (yearString y)"
proof -
  consider "0 \<le> y \<and> y \<le> 9999" | "y < 0" | "9999 < y" by linarith
  then show ?thesis
  proof cases
    case 1
    then show ?thesis by (simp add: yearWritten_def yearString_def isDecimal_pad4)
  next
    case 2
    then have "isDecimal 6 (- y) (pad6 (- y))" using assms by (intro isDecimal_pad6) simp_all
    then show ?thesis using 2 by (simp add: yearWritten_def yearString_def lit_def ch_def)
  next
    case 3
    then have "isDecimal 6 y (pad6 y)" using assms by (intro isDecimal_pad6) simp_all
    then show ?thesis using 3 by (simp add: yearWritten_def yearString_def lit_def ch_def)
  qed
qed

lemma writtenDate_append:
  assumes "yearWritten y ys" and "isDecimal 2 m ms" and "isDecimal 2 d ds"
  shows "writtenDate y m d (ys @ lit ''-'' @ ms @ lit ''-'' @ ds)"
proof -
  let ?s = "ys @ lit ''-'' @ ms @ lit ''-'' @ ds"
  have l: "length ms = 2" "length ds = 2" using assms(2,3) by (simp_all add: isDecimal_def)
  have dash: "lit ''-'' = [ch CHR ''-'']" by (simp add: lit_def ch_def)
  have n: "length ?s = length ys + 6" using l by (simp add: dash)
  have "take (length ys + 6 - 6) ?s = ys" by simp
  moreover have "?s ! (length ys + 6 - 6) = ch CHR ''-''" by (simp add: dash nth_append)
  moreover have "take 2 (drop (length ys + 6 - 5) ?s) = ms" using l by (simp add: dash)
  moreover have "?s ! (length ys + 6 - 3) = ch CHR ''-''" using l by (simp add: dash nth_append)
  moreover have "drop (length ys + 6 - 2) ?s = ds" using l by (simp add: dash)
  ultimately show ?thesis
    unfolding writtenDate_def Let_def n using assms by simp
qed

lemma year_bound:
  assumes "\<bar>t\<bar> \<le> 8640000000000000"
  shows "\<bar>yearFromDay (t div msPerDay)\<bar> < 1000000"
proof -
  define dn where "dn = t div msPerDay"
  define y where "y = yearFromDay dn"
  define k where "k = y - 1970"
  define k1 where "k1 = k + 1"
  define lo where "lo = dayFromYear y"
  define hi where "hi = dayFromYear (y + 1)"
  have d: "86400000 * dn \<le> t" "t < 86400000 * dn + 86400000"
    using div_bounds [of 86400000 dn t] by (simp_all add: dn_def msPerDay_def)
  have dn: "- 100000000 \<le> dn" "dn \<le> 100000000" using d assms by linarith+
  have s: "lo \<le> dn" "dn < hi" using yearFromDay_spec [of dn] by (simp_all add: lo_def hi_def y_def)
  have "146097 * k - 506 \<le> 400 * lo"
    unfolding lo_def using dayFromYear_bounds [of k y] by (simp add: k_def)
  then have up: "k \<le> 300000" using s dn by linarith
  have "400 * hi \<le> 146097 * k1 + 589"
    unfolding hi_def using dayFromYear_bounds [of k1 "y + 1"] by (simp add: k_def k1_def)
  then have "- 300000 \<le> k1" using s dn by linarith
  then show ?thesis using up by (simp add: k_def k1_def y_def dn_def)
qed

lemma daysInMonth_le: "daysInMonth y m \<le> 31"
  by (simp add: daysInMonth_def)

lemma utcDate_calendar:
  assumes "\<bar>t\<bar> \<le> 8640000000000000"
  shows "\<exists>y m d. onUtcDay y m d t \<and> writtenDate y m d (utcDate t)"
proof -
  obtain y m d where c: "civilFromDay (t div msPerDay) = (y, m, d)"
    by (metis prod_cases3)
  note v = civilFromDay_valid [OF c]
  have y: "y = yearFromDay (t div msPerDay)" using c by (simp add: civilFromDay_def Let_def)
  have day: "t div msPerDay * msPerDay \<le> t" "t < (t div msPerDay + 1) * msPerDay"
    using div_bounds [of msPerDay "t div msPerDay" t]
    by (simp_all add: msPerDay_def algebra_simps)
  have on: "onUtcDay y m d t" unfolding onUtcDay_def using v day by simp
  have "yearWritten y (yearString y)"
    unfolding y using assms by (intro yearWritten_yearString year_bound)
  moreover have "isDecimal 2 m (pad2 m)" using v by (intro isDecimal_pad2) simp_all
  moreover have "isDecimal 2 d (pad2 d)"
    using v daysInMonth_le [of y m] by (intro isDecimal_pad2) simp_all
  ultimately have "writtenDate y m d (yearString y @ lit ''-'' @ pad2 m @ lit ''-'' @ pad2 d)"
    by (rule writtenDate_append)
  then have "writtenDate y m d (utcDate t)" by (simp add: utcDate_def c)
  with on show ?thesis by blast
qed

text \<open>
  Within the argument limit, the record of the greatest (least) instant decides the end
  (the start), whatever its place in the sequence.
\<close>

lemma getDateRange_extreme_record:
  assumes "c \<in> set commits" and "length commits \<le> argLimit"
    and "\<forall>c'\<in>set commits. newDate hostParse (date c') \<noteq> NaN"
    and "newDate hostParse (date c) = Number t"
  shows "\<exists>r. getDateRange hostParse argLimit now commits = Inr r
           \<and> ((\<forall>c'\<in>set commits. \<forall>t'. newDate hostParse (date c') = Number t' \<longrightarrow> t' \<le> t)
                \<longrightarrow> range_end r = Some (utcDate t))
           \<and> ((\<forall>c'\<in>set commits. \<forall>t'. newDate hostParse (date c') = Number t' \<longrightarrow> t \<le> t')
                \<longrightarrow> range_start r = Some (utcDate t))"
proof -
  have ne: "commits \<noteq> []" using assms(1) by auto
  from instants_exist [OF assms(3)] obtain ts where
    ts: "map (\<lambda>c. newDate hostParse (date c)) commits = map Number ts" by blast
  let ?r = "\<lparr>range_start = Some (utcDate (Min (set ts))), range_end = Some (utcDate (Max (set ts)))\<rparr>"
  have r: "getDateRange hostParse argLimit now commits = Inr ?r"
    by (rule getDateRange_parsed [OF ne assms(2) ts])
  have mem: "Number ` set ts = (\<lambda>c. newDate hostParse (date c)) ` set commits"
    using ts by (metis list.set_map)
  have t_in: "t \<in> set ts"
  proof -
    have "Number t \<in> (\<lambda>c. newDate hostParse (date c)) ` set commits"
      using assms(1,4) by (metis image_eqI)
    then show ?thesis unfolding mem [symmetric] by auto
  qed
  have each: "\<exists>c'\<in>set commits. newDate hostParse (date c') = Number t'" if "t' \<in> set ts" for t'
  proof -
    from that have "Number t' \<in> (\<lambda>c. newDate hostParse (date c)) ` set commits"
      unfolding mem [symmetric] by simp
    then show ?thesis by auto
  qed
  have newest: "range_end ?r = Some (utcDate t)"
    if "\<forall>c'\<in>set commits. \<forall>t'. newDate hostParse (date c') = Number t' \<longrightarrow> t' \<le> t"
  proof -
    have "\<forall>t'\<in>set ts. t' \<le> t" using that each by blast
    then have "Max (set ts) = t" using t_in by (intro Max_is) simp_all
    then show ?thesis by simp
  qed
  have oldest: "range_start ?r = Some (utcDate t)"
    if "\<forall>c'\<in>set commits. \<forall>t'. newDate hostParse (date c') = Number t' \<longrightarrow> t \<le> t'"
  proof -
    have "\<forall>t'\<in>set ts. t \<le> t'" using that each by blast
    then have "Min (set ts) = t" using t_in by (intro Min_is) simp_all
    then show ?thesis by simp
  qed
  show ?thesis
    using r newest oldest by (intro exI [of _ ?r] conjI allI impI) blast+
qed

lemma trimmed_specRecord: "trimmedRecord (specRecord flds fs)"
  by (simp add: trimmedRecord_def specRecord_def trim_idem)

lemma specRecord_empty_iff:
  "hash (specRecord flds fs) = [] \<longleftrightarrow> (\<forall>c\<in>set (flds ! 0). isWhiteSpace c)"
  "date (specRecord flds fs) = [] \<longleftrightarrow> (\<forall>c\<in>set (flds ! 1). isWhiteSpace c)"
  "author (specRecord flds fs) = [] \<longleftrightarrow> (\<forall>c\<in>set (flds ! 2). isWhiteSpace c)"
  "message (specRecord flds fs) = [] \<longleftrightarrow> (\<forall>c\<in>set (flds ! 3). isWhiteSpace c)"
  by (simp_all add: specRecord_def trim_eq_Nil)

lemma single_chunk:
  assumes "cs \<noteq> []" "sepFree cs chunk []" "trim chunk \<noteq> []"
  shows "rawCommitsOf chunk cs = [chunk]"
  using assms splitNE_last [OF assms(2)] by (simp add: rawCommitsOf_def splitJS_def)

lemmas eval_defs = lit_def parseGitLog_def rawCommitsOf_def splitJS_def trim_def isWhiteSpace_def
  mkCommit_def elemAt_def trimU_def Let_def blobOf_def wellFormedRecord_def specRecord_def

subsection \<open>Claims about parseGitLog\<close>

text \<open>
  C9. parseGitLog is total: for every input string and every pair of separator tokens
  (empty input, input equal to a separator, any number of fields in a chunk) it returns a
  list of records and raises no error.
\<close>

theorem parseGitLog_total:
  "\<exists>commits. parseGitLog raw commitSeparator fieldSeparator = Inr commits"
  by (simp add: parseGitLog_char)

theorem parseGitLog_total_witness:
  "(\<exists>commits. parseGitLog [] (lit ''|'') (lit '','') = Inr commits)
   \<and> (\<exists>commits. parseGitLog (lit ''|'') (lit ''|'') (lit '','') = Inr commits)
   \<and> (\<exists>commits. parseGitLog (lit ''a,b'') [] [] = Inr commits)"
  using parseGitLog_total [of "[]" "lit ''|''" "lit '',''"]
    parseGitLog_total [of "lit ''|''" "lit ''|''" "lit '',''"]
    parseGitLog_total [of "lit ''a,b''" "[]" "[]"]
  by blast

text \<open>
  C6. For every blob, a chunk that splits into fewer than 4 parts on the field separator
  is dropped without an error: the call returns normally, the records returned are those
  of the retained chunks with at least 4 parts, in order, so each short chunk lowers the
  count by one.
\<close>

theorem parseGitLog_drops_short_chunks:
  "\<exists>commits. parseGitLog raw commitSeparator fieldSeparator = Inr commits
     \<and> commits = map (\<lambda>c. specRecord (splitJS c fieldSeparator) fieldSeparator)
                     (filter (\<lambda>c. \<not> length (splitJS c fieldSeparator) < 4)
                        (rawCommitsOf raw commitSeparator))
     \<and> length commits
         + length (filter (\<lambda>c. length (splitJS c fieldSeparator) < 4)
                     (rawCommitsOf raw commitSeparator))
       = length (rawCommitsOf raw commitSeparator)"
proof -
  let ?chunks = "rawCommitsOf raw commitSeparator"
  let ?short = "\<lambda>c. length (splitJS c fieldSeparator) < 4"
  have same: "(\<lambda>c. 4 \<le> length (splitJS c fieldSeparator)) = (\<lambda>c. \<not> ?short c)"
    by (auto simp: fun_eq_iff)
  have "length (filter (\<lambda>c. \<not> ?short c) ?chunks) + length (filter ?short ?chunks) = length ?chunks"
    using sum_length_filter_compl [of ?short ?chunks] by simp
  then show ?thesis by (simp add: parseGitLog_char same)
qed

theorem parseGitLog_drops_short_chunks_witness:
  "parseGitLog (lit ''h1,d1,a1,m1|h2,d2|h3,d3,a3,m3,b3|'') (lit ''|'') (lit '','')
     = Inr [\<lparr>hash = lit ''h1'', date = lit ''d1'', author = lit ''a1'', message = lit ''m1'',
              body = None\<rparr>,
            \<lparr>hash = lit ''h3'', date = lit ''d3'', author = lit ''a3'', message = lit ''m3'',
              body = Some (lit ''b3'')\<rparr>]
   \<and> rawCommitsOf (lit ''h1,d1,a1,m1|h2,d2|h3,d3,a3,m3,b3|'') (lit ''|'')
     = [lit ''h1,d1,a1,m1'', lit ''h2,d2'', lit ''h3,d3,a3,m3,b3'']"
  using parseGitLog_drops_short_chunks
    [of "lit ''h1,d1,a1,m1|h2,d2|h3,d3,a3,m3,b3|''" "lit ''|''" "lit '',''"]
  by (simp add: eval_defs)

text \<open>
  C4. A chunk whose body contains the field separator as literal text: the parts from the
  fifth onward, rejoined with the field separator, are the body text again, and the record
  carries that text (trimmed) as its body. The witness is the chunk
  \<open>h1\<section>d1\<section>a1\<section>msg1\<section>line-one\<section>line-two\<close> with the section sign (code unit \<open>0xA7\<close>) as
  field separator.
\<close>

theorem parseGitLog_body_roundtrip:
  assumes "fieldSeparator \<noteq> []" and "commitSeparator \<noteq> []"
    and "sepFree fieldSeparator h fieldSeparator" and "sepFree fieldSeparator d fieldSeparator"
    and "sepFree fieldSeparator a fieldSeparator" and "sepFree fieldSeparator m fieldSeparator"
    and "trim bodyText \<noteq> []"
    and "sepFree commitSeparator
           (h @ fieldSeparator @ d @ fieldSeparator @ a @ fieldSeparator @ m @ fieldSeparator
              @ bodyText) []"
  shows "joinJS (drop 4 (splitJS (h @ fieldSeparator @ d @ fieldSeparator @ a @ fieldSeparator
                                    @ m @ fieldSeparator @ bodyText) fieldSeparator))
           fieldSeparator = bodyText
       \<and> parseGitLog (h @ fieldSeparator @ d @ fieldSeparator @ a @ fieldSeparator @ m
                        @ fieldSeparator @ bodyText) commitSeparator fieldSeparator
         = Inr [\<lparr>hash = trim h, date = trim d, author = trim a, message = trim m,
                  body = Some (trim bodyText)\<rparr>]"
proof -
  let ?fs = fieldSeparator
  let ?chunk = "h @ ?fs @ d @ ?fs @ a @ ?fs @ m @ ?fs @ bodyText"
  have parts: "splitJS ?chunk ?fs = h # d # a # m # splitNE ?fs bodyText"
    using split_four [OF assms(1) assms(3-6), of bodyText] assms(1) by (simp add: splitJS_def)
  have glue: "joinJS (splitNE ?fs bodyText) ?fs = bodyText"
    using assms(1) by (rule join_splitNE)
  have "\<exists>c\<in>set bodyText. \<not> isWhiteSpace c" using assms(7) by (simp add: trim_eq_Nil)
  then have "trim ?chunk \<noteq> []" by (auto simp: trim_eq_Nil)
  then have raw: "rawCommitsOf ?chunk commitSeparator = [?chunk]"
    using single_chunk [OF assms(2) assms(8)] by simp
  have "parseGitLog ?chunk commitSeparator ?fs
          = Inr [specRecord (h # d # a # m # splitNE ?fs bodyText) ?fs]"
    by (simp add: parseGitLog_char raw parts)
  then show ?thesis using assms(7) by (simp add: parts glue specRecord_def)
qed

theorem parseGitLog_body_roundtrip_witness:
  "parseGitLog (lit ''h1'' @ [0xA7] @ lit ''d1'' @ [0xA7] @ lit ''a1'' @ [0xA7] @ lit ''msg1''
                  @ [0xA7] @ lit ''line-one'' @ [0xA7] @ lit ''line-two'')
               (lit ''---COMMIT_SEPARATOR---'') [0xA7]
     = Inr [\<lparr>hash = lit ''h1'', date = lit ''d1'', author = lit ''a1'', message = lit ''msg1'',
              body = Some (lit ''line-one'' @ [0xA7] @ lit ''line-two'')\<rparr>]"
proof -
  have "sepFree [0xA7] (lit ''h1'') [0xA7 :: jschar]" "sepFree [0xA7] (lit ''d1'') [0xA7 :: jschar]"
    "sepFree [0xA7] (lit ''a1'') [0xA7 :: jschar]" "sepFree [0xA7] (lit ''msg1'') [0xA7 :: jschar]"
    by (simp_all add: lit_def)
  moreover have "trim (lit ''line-one'' @ [0xA7] @ lit ''line-two'') \<noteq> []"
    by (simp add: lit_def trim_def isWhiteSpace_def)
  moreover have "sepFree (lit ''---COMMIT_SEPARATOR---'')
      (lit ''h1'' @ [0xA7] @ lit ''d1'' @ [0xA7] @ lit ''a1'' @ [0xA7] @ lit ''msg1''
         @ [0xA7] @ lit ''line-one'' @ [0xA7] @ lit ''line-two'') []"
    by (simp add: lit_def)
  ultimately show ?thesis
    using parseGitLog_body_roundtrip [of "[0xA7]" "lit ''---COMMIT_SEPARATOR---''"
        "lit ''h1''" "lit ''d1''" "lit ''a1''" "lit ''msg1''"
        "lit ''line-one'' @ [0xA7] @ lit ''line-two''"]
    by (simp add: lit_def trim_def isWhiteSpace_def)
qed

text \<open>
  C1, as amended. A blob of N records, each of at least 4 fields joined by the field
  separator, the records joined by the commit separator, with or without a trailing commit
  separator, where the separators are non-empty and occur only where they were placed and
  no record is whitespace only: parseGitLog returns exactly N records in input order. The
  hash, date, author and message of each are the first four fields trimmed, hence empty
  exactly when the field holds nothing but whitespace; the body is absent or a non-empty
  trimmed string.
\<close>

theorem parseGitLog_wellformed_blob:
  assumes "commitSeparator \<noteq> []" and "fieldSeparator \<noteq> []"
    and "list_all (wellFormedRecord commitSeparator fieldSeparator) records"
  shows "parseGitLog (blobOf records commitSeparator fieldSeparator trailing)
             commitSeparator fieldSeparator
           = Inr (map (\<lambda>flds. specRecord flds fieldSeparator) records)
       \<and> (\<forall>flds\<in>set records.
             trimmedRecord (specRecord flds fieldSeparator)
           \<and> (hash (specRecord flds fieldSeparator) = [] \<longleftrightarrow> (\<forall>c\<in>set (flds ! 0). isWhiteSpace c))
           \<and> (date (specRecord flds fieldSeparator) = [] \<longleftrightarrow> (\<forall>c\<in>set (flds ! 1). isWhiteSpace c))
           \<and> (author (specRecord flds fieldSeparator) = [] \<longleftrightarrow> (\<forall>c\<in>set (flds ! 2). isWhiteSpace c))
           \<and> (message (specRecord flds fieldSeparator) = [] \<longleftrightarrow> (\<forall>c\<in>set (flds ! 3). isWhiteSpace c)))"
  using parseGitLog_wellFormed [OF assms] trimmed_specRecord specRecord_empty_iff by blast

theorem parseGitLog_wellformed_blob_witness:
  "parseGitLog (lit ''h1,d1,a1,m1,b1,c1| h2 ,d2,a2,|'') (lit ''|'') (lit '','')
     = Inr [\<lparr>hash = lit ''h1'', date = lit ''d1'', author = lit ''a1'', message = lit ''m1'',
              body = Some (lit ''b1,c1'')\<rparr>,
            \<lparr>hash = lit ''h2'', date = lit ''d2'', author = lit ''a2'', message = [],
              body = None\<rparr>]"
  using parseGitLog_wellformed_blob [of "lit ''|''" "lit '',''"
      "[[lit ''h1'', lit ''d1'', lit ''a1'', lit ''m1'', lit ''b1'', lit ''c1''],
        [lit '' h2 '', lit ''d2'', lit ''a2'', []]]" True]
  by (simp add: eval_defs)

text \<open>
  C1 as stated fails on a commit with an empty subject: the blob git emits for it is
  well formed, with five fields, and the record returned has an empty message.
\<close>

theorem parseGitLog_empty_subject_counterexample:
  "list_all (wellFormedRecord (lit ''---COMMIT_SEPARATOR---'') (lit ''---FIELD---''))
     [[lit ''a1b2c3d'', lit ''2024-01-05T10:00:00+00:00'', lit ''Ann'', [], []]]
   \<and> blobOf [[lit ''a1b2c3d'', lit ''2024-01-05T10:00:00+00:00'', lit ''Ann'', [], []]]
        (lit ''---COMMIT_SEPARATOR---'') (lit ''---FIELD---'') True
     = lit ''a1b2c3d---FIELD---2024-01-05T10:00:00+00:00---FIELD---Ann---FIELD------FIELD------COMMIT_SEPARATOR---''
   \<and> parseGitLog
       (lit ''a1b2c3d---FIELD---2024-01-05T10:00:00+00:00---FIELD---Ann---FIELD------FIELD------COMMIT_SEPARATOR---'')
       (lit ''---COMMIT_SEPARATOR---'') (lit ''---FIELD---'')
     = Inr [\<lparr>hash = lit ''a1b2c3d'', date = lit ''2024-01-05T10:00:00+00:00'', author = lit ''Ann'',
             message = [], body = None\<rparr>]"
  by (simp add: eval_defs)

subsection \<open>Claims about parseClaudeResponse and summarizeCommits\<close>

text \<open>
  C2, as amended. For every reply whose span from the first \<open>{\<close> to the last \<open>}\<close>
  parses, the parsed value is a mapping and parseClaudeResponse returns exactly four
  sections in the order features, fixes, improvements, other. A category key absent from
  the mapping gets the empty sequence; a key whose value is a sequence of strings gets
  exactly those strings, in the order received. Replies whose mappings agree on the four
  keys give the same result, so extra keys are ignored.
\<close>

theorem parseClaudeResponse_sections:
  assumes "matchBraces reply = Some span" and "JSON_parse span = Some data"
  shows "\<exists>props sections.
           data = JObj props \<and> parseClaudeResponse reply = Inr sections
         \<and> map category sections = [Features, Fixes, Improvements, Other]
         \<and> (\<forall>i<4.
               (lit (snd (categoryKeys ! i)) \<notin> fst ` set props
                  \<longrightarrow> items (sections ! i) = JArr [])
             \<and> (\<forall>strs. map_of (rev props) (lit (snd (categoryKeys ! i))) = Some (JArr (map JStr strs))
                     \<longrightarrow> items (sections ! i) = JArr (map JStr strs)))
         \<and> (\<forall>reply' span' props'.
               matchBraces reply' = Some span' \<and> JSON_parse span' = Some (JObj props')
             \<and> (\<forall>(c, key)\<in>set categoryKeys.
                   map_of (rev props') (lit key) = map_of (rev props) (lit key))
             \<longrightarrow> parseClaudeResponse reply' = Inr sections)"
proof -
  from matchBraces_hd [OF assms(1)] assms(2) JSON_parse_obj obtain props where
    props: "data = JObj props" by blast
  define sections where
    "sections = map (\<lambda>(c, key). \<lparr>category = c, items = orEmpty (getProp props (lit key))\<rparr>)
                  categoryKeys"
  have r: "parseClaudeResponse reply = Inr sections"
    by (simp add: parseClaudeResponse_def assms props sectionsOf_obj sections_def)
  have cats: "map category sections = [Features, Fixes, Improvements, Other]"
    unfolding sections_def by (simp add: categoryKeys_def)
  have nth: "items (sections ! i) = orEmpty (getProp props (lit (snd (categoryKeys ! i))))"
    and mem: "categoryKeys ! i \<in> set categoryKeys" if "i < 4" for i
  proof -
    have l: "i < length categoryKeys" using that by (simp add: categoryKeys_def)
    then show "categoryKeys ! i \<in> set categoryKeys" by (rule nth_mem)
    show "items (sections ! i) = orEmpty (getProp props (lit (snd (categoryKeys ! i))))"
      unfolding sections_def using l by (simp add: split_beta)
  qed
  have each: "\<forall>i<4.
               (lit (snd (categoryKeys ! i)) \<notin> fst ` set props
                  \<longrightarrow> items (sections ! i) = JArr [])
             \<and> (\<forall>strs. map_of (rev props) (lit (snd (categoryKeys ! i))) = Some (JArr (map JStr strs))
                     \<longrightarrow> items (sections ! i) = JArr (map JStr strs))"
  proof (intro allI impI conjI)
    fix i :: nat
    assume i: "i < 4" and "lit (snd (categoryKeys ! i)) \<notin> fst ` set props"
    then have "getProp props (lit (snd (categoryKeys ! i))) = JUndefined"
      using getProp_absent [of "fst (categoryKeys ! i)" "snd (categoryKeys ! i)" props] mem [OF i]
      by simp
    then show "items (sections ! i) = JArr []" by (simp add: nth [OF i] orEmpty_def)
  next
    fix i :: nat and strs
    assume i: "i < 4"
      and "map_of (rev props) (lit (snd (categoryKeys ! i))) = Some (JArr (map JStr strs))"
    then have "getProp props (lit (snd (categoryKeys ! i))) = JArr (map JStr strs)"
      by (intro getProp_own)
    then show "items (sections ! i) = JArr (map JStr strs)" by (simp add: nth [OF i] orEmpty_def)
  qed
  have extra: "\<forall>reply' span' props'.
               matchBraces reply' = Some span' \<and> JSON_parse span' = Some (JObj props')
             \<and> (\<forall>(c, key)\<in>set categoryKeys.
                   map_of (rev props') (lit key) = map_of (rev props) (lit key))
             \<longrightarrow> parseClaudeResponse reply' = Inr sections"
  proof (intro allI impI, elim conjE)
    fix reply' span' props'
    assume m: "matchBraces reply' = Some span'" and p: "JSON_parse span' = Some (JObj props')"
      and a: "\<forall>(c, key)\<in>set categoryKeys.
                 map_of (rev props') (lit key) = map_of (rev props) (lit key)"
    have "getProp props' (lit key) = getProp props (lit key)"
      if "(c, key) \<in> set categoryKeys" for c key
    proof -
      from a that have "map_of (rev props') (lit key) = map_of (rev props) (lit key)" by blast
      then show ?thesis by (rule getProp_cong)
    qed
    then have "map (\<lambda>(c, key). \<lparr>category = c, items = orEmpty (getProp props' (lit key))\<rparr>)
                 categoryKeys
             = sections"
      unfolding sections_def by (intro map_cong) auto
    then show "parseClaudeResponse reply' = Inr sections"
      by (simp add: parseClaudeResponse_def m p sectionsOf_obj)
  qed
  from props r cats each extra show ?thesis
    by (intro exI [of _ props] exI [of _ sections] conjI)
qed

theorem parseClaudeResponse_sections_witness:
  \<open>\<exists>sections.
      parseClaudeResponse (lit ''Here you go:'' @ [0xA] @ lit ''{"features":["A"],"fixes":[]}'')
        = Inr sections
    \<and> map category sections = [Features, Fixes, Improvements, Other]
    \<and> items (sections ! 0) = JArr [JStr (lit ''A'')]
    \<and> items (sections ! 1) = JArr []
    \<and> items (sections ! 2) = JArr []
    \<and> items (sections ! 3) = JArr []
    \<and> parseClaudeResponse (lit ''{"note":"x","fixes":[],"features":["A"]}'') = Inr sections\<close>
proof -
  let ?reply = \<open>lit ''Here you go:'' @ [0xA] @ lit ''{"features":["A"],"fixes":[]}''\<close>
  let ?props = "[(lit ''features'', JArr [JStr (lit ''A'')]), (lit ''fixes'', JArr [])]"
  have m: \<open>matchBraces ?reply = Some (lit ''{"features":["A"],"fixes":[]}'')\<close> by code_simp
  have p: \<open>JSON_parse (lit ''{"features":["A"],"fixes":[]}'') = Some (JObj ?props)\<close> by code_simp
  from parseClaudeResponse_sections [OF m p] obtain props sections where
    props: "JObj ?props = JObj props"
    and r: "parseClaudeResponse ?reply = Inr sections"
    and cats: "map category sections = [Features, Fixes, Improvements, Other]"
    and each: "\<forall>i<4.
               (lit (snd (categoryKeys ! i)) \<notin> fst ` set props
                  \<longrightarrow> items (sections ! i) = JArr [])
             \<and> (\<forall>strs. map_of (rev props) (lit (snd (categoryKeys ! i))) = Some (JArr (map JStr strs))
                     \<longrightarrow> items (sections ! i) = JArr (map JStr strs))"
    and extra: "\<forall>reply' span' props'.
               matchBraces reply' = Some span' \<and> JSON_parse span' = Some (JObj props')
             \<and> (\<forall>(c, key)\<in>set categoryKeys.
                   map_of (rev props') (lit key) = map_of (rev props) (lit key))
             \<longrightarrow> parseClaudeResponse reply' = Inr sections"
    by (elim exE conjE)
  from props have pr: "props = ?props" by simp
  have i: "(0::nat) < 4" "(1::nat) < 4" "(2::nat) < 4" "(3::nat) < 4" by simp_all
  have "map_of (rev props) (lit (snd (categoryKeys ! 0))) = Some (JArr (map JStr [lit ''A'']))"
    unfolding pr by (simp add: categoryKeys_def lit_def)
  then have "items (sections ! 0) = JArr (map JStr [lit ''A''])"
    by (rule each [THEN spec, THEN mp, OF i(1), THEN conjunct2, THEN spec, THEN mp])
  then have 0: "items (sections ! 0) = JArr [JStr (lit ''A'')]" by simp
  have "map_of (rev props) (lit (snd (categoryKeys ! 1))) = Some (JArr (map JStr []))"
    unfolding pr by (simp add: categoryKeys_def lit_def)
  then have "items (sections ! 1) = JArr (map JStr [])"
    by (rule each [THEN spec, THEN mp, OF i(2), THEN conjunct2, THEN spec, THEN mp])
  then have 1: "items (sections ! 1) = JArr []" by simp
  have "lit (snd (categoryKeys ! 2)) \<notin> fst ` set props"
    unfolding pr by (simp add: categoryKeys_def lit_def)
  then have 2: "items (sections ! 2) = JArr []"
    by (rule each [THEN spec, THEN mp, OF i(3), THEN conjunct1, THEN mp])
  have "lit (snd (categoryKeys ! 3)) \<notin> fst ` set props"
    unfolding pr by (simp add: categoryKeys_def lit_def)
  then have 3: "items (sections ! 3) = JArr []"
    by (rule each [THEN spec, THEN mp, OF i(4), THEN conjunct1, THEN mp])
  let ?reply' = \<open>lit ''{"note":"x","fixes":[],"features":["A"]}''\<close>
  let ?props' = "[(lit ''note'', JStr (lit ''x'')), (lit ''fixes'', JArr []),
                  (lit ''features'', JArr [JStr (lit ''A'')])]"
  have m': "matchBraces ?reply' = Some ?reply'" by code_simp
  have p': "JSON_parse ?reply' = Some (JObj ?props')" by code_simp
  have a': "\<forall>(c, key)\<in>set categoryKeys.
              map_of (rev ?props') (lit key) = map_of (rev props) (lit key)"
    unfolding pr by (simp add: categoryKeys_def lit_def)
  from m' p' a' have 4: "parseClaudeResponse ?reply' = Inr sections"
    by (intro extra [THEN spec, THEN spec, THEN spec, THEN mp] conjI)
  from r cats 0 1 2 3 4 show ?thesis by (intro exI [of _ sections] conjI)
qed

text \<open>
  C2 as stated fails in three ways. For the payload \<open>{"features":"A"}\<close> the items of the
  first section are the string \<open>A\<close> itself, not a sequence; for \<open>{"features":[1]}\<close> they
  are a sequence that holds a number; and for a reply with no span nothing is returned.
\<close>

theorem parseClaudeResponse_string_items_counterexample:
  \<open>parseClaudeResponse (lit ''{"features":"A"}'')
     = Inr [\<lparr>category = Features, items = JStr (lit ''A'')\<rparr>,
            \<lparr>category = Fixes, items = JArr []\<rparr>,
            \<lparr>category = Improvements, items = JArr []\<rparr>,
            \<lparr>category = Other, items = JArr []\<rparr>]
   \<and> parseClaudeResponse (lit ''{"features":[1]}'')
     = Inr [\<lparr>category = Features, items = JArr [JNum 1 0]\<rparr>,
            \<lparr>category = Fixes, items = JArr []\<rparr>,
            \<lparr>category = Improvements, items = JArr []\<rparr>,
            \<lparr>category = Other, items = JArr []\<rparr>]
   \<and> parseClaudeResponse (lit ''Nothing to report.'')
     = Inl (Error ''Could not parse Claude response as JSON'')\<close>
  by code_simp

text \<open>
  C3. A span that does not parse (here because of a trailing comma) makes the call fail
  with the \<open>SyntaxError\<close> thrown by \<open>JSON.parse\<close>, not with the dedicated error
  \<open>Could not parse Claude response as JSON\<close> that a reply with no span gets.
\<close>

theorem parseClaudeResponse_leaks_syntax_error:
  \<open>matchBraces (lit ''Summary: {"features":["A",]} done'') = Some (lit ''{"features":["A",]}'')
   \<and> JSON_parse (lit ''{"features":["A",]}'') = None
   \<and> parseClaudeResponse (lit ''Summary: {"features":["A",]} done'') = Inl SyntaxError
   \<and> parseClaudeResponse (lit ''I could not summarize these commits.'')
       = Inl (Error ''Could not parse Claude response as JSON'')\<close>
  by code_simp

text \<open>
  C8. The audience \<open>constructor\<close> is outside the closed set, yet the lookup finds the
  inherited property \<open>Object.prototype.constructor\<close>, a function and therefore truthy, so
  the guidance is that function and not the general framing text. An absent audience and
  an unknown one that names no inherited property (here \<open>marketing\<close>) do select the
  general text.
\<close>

theorem audienceGuidance_inherited_property:
  "audienceGuidance (Some (lit ''constructor'')) = JNative ''Object''
   \<and> audienceGuidance (Some (lit ''general'')) = JStr (lit ''Write for a general business audience.'')
   \<and> audienceGuidance None = JStr (lit ''Write for a general business audience.'')
   \<and> audienceGuidance (Some (lit ''marketing'')) = JStr (lit ''Write for a general business audience.'')"
  by code_simp

subsection \<open>Claims about getDateRange\<close>

text \<open>
  C5, as amended. On the empty sequence getDateRange returns the calendar date of the
  clock reading as start and as end. On a non-empty sequence that fits in the arguments
  of one call and whose date fields all parse, it returns the calendar date of the least
  instant as start and that of the greatest as end, and a rearrangement of the records
  leaves the result unchanged. The calendar date of an instant is the UTC one: a valid
  date whose day contains the instant (so the time of day plays no part), written
  \<open>YYYY-MM-DD\<close> when the year lies between 0 and 9999, and with a sign and six digits of
  year otherwise.
\<close>

theorem getDateRange_min_max:
  "(\<bar>now\<bar> \<le> 8640000000000000 \<longrightarrow>
      getDateRange hostParse argLimit now []
        = Inr \<lparr>range_start = Some (utcDate now), range_end = Some (utcDate now)\<rparr>)
   \<and> (commits \<noteq> [] \<and> length commits \<le> argLimit
        \<and> (\<forall>c\<in>set commits. newDate hostParse (date c) \<noteq> NaN) \<longrightarrow>
        (\<exists>instants.
            map (\<lambda>c. newDate hostParse (date c)) commits = map Number instants
          \<and> getDateRange hostParse argLimit now commits
              = Inr \<lparr>range_start = Some (utcDate (Min (set instants))),
                     range_end = Some (utcDate (Max (set instants)))\<rparr>))
   \<and> (mset commits' = mset commits \<longrightarrow>
        getDateRange hostParse argLimit now commits' = getDateRange hostParse argLimit now commits)
   \<and> (\<bar>t\<bar> \<le> 8640000000000000 \<longrightarrow>
        (\<exists>y m d. onUtcDay y m d t \<and> writtenDate y m d (utcDate t)))
   \<and> utcDate t = utcDate (t div msPerDay * msPerDay)"
proof (intro conjI impI)
  assume "\<bar>now\<bar> \<le> 8640000000000000"
  then show "getDateRange hostParse argLimit now []
        = Inr \<lparr>range_start = Some (utcDate now), range_end = Some (utcDate now)\<rparr>"
    by (rule getDateRange_empty)
next
  assume a: "commits \<noteq> [] \<and> length commits \<le> argLimit
        \<and> (\<forall>c\<in>set commits. newDate hostParse (date c) \<noteq> NaN)"
  then obtain ts where ts: "map (\<lambda>c. newDate hostParse (date c)) commits = map Number ts"
    using instants_exist [of commits hostParse] by blast
  from a have ne: "commits \<noteq> []" and le: "length commits \<le> argLimit" by simp_all
  show "\<exists>instants.
            map (\<lambda>c. newDate hostParse (date c)) commits = map Number instants
          \<and> getDateRange hostParse argLimit now commits
              = Inr \<lparr>range_start = Some (utcDate (Min (set instants))),
                     range_end = Some (utcDate (Max (set instants)))\<rparr>"
    using ts getDateRange_parsed [OF ne le ts] by (intro exI [of _ ts] conjI)
next
  assume m: "mset commits' = mset commits"
  then have "set commits' = set commits" by (rule mset_eq_setD)
  moreover have "length commits' = length commits" using m by (rule mset_eq_length)
  ultimately show "getDateRange hostParse argLimit now commits'
      = getDateRange hostParse argLimit now commits"
    by (rule getDateRange_set)
next
  assume "\<bar>t\<bar> \<le> 8640000000000000"
  then show "\<exists>y m d. onUtcDay y m d t \<and> writtenDate y m d (utcDate t)"
    by (rule utcDate_calendar)
next
  show "utcDate t = utcDate (t div msPerDay * msPerDay)" by (rule utcDate_truncates)
qed

theorem getDateRange_min_max_witness:
  "getDateRange (\<lambda>s. NaN) 125000 1704515400000 []
     = Inr \<lparr>range_start = Some (lit ''2024-01-06''), range_end = Some (lit ''2024-01-06'')\<rparr>
   \<and> getDateRange (\<lambda>s. NaN) 125000 1704515400000 [commitAt ''2024-01-05'', commitAt ''2024-01-20'']
     = Inr \<lparr>range_start = Some (lit ''2024-01-05''), range_end = Some (lit ''2024-01-20'')\<rparr>
   \<and> getDateRange (\<lambda>s. NaN) 125000 1704515400000 [commitAt ''2024-01-20'', commitAt ''2024-01-05'']
     = Inr \<lparr>range_start = Some (lit ''2024-01-05''), range_end = Some (lit ''2024-01-20'')\<rparr>
   \<and> (\<exists>y m d. onUtcDay y m d (- 62167305540000) \<and> writtenDate y m d (lit ''-000001-12-31''))"
proof -
  let ?H = "\<lambda>s::jsstring. NaN"
  let ?cs = "[commitAt ''2024-01-05'', commitAt ''2024-01-20'']"
  let ?cs' = "[commitAt ''2024-01-20'', commitAt ''2024-01-05'']"
  note inst = getDateRange_min_max [of 1704515400000 ?H 125000 ?cs ?cs' "- 62167305540000"]
  have d: "map (\<lambda>c. newDate ?H (date c)) ?cs = map Number [1704412800000, 1705708800000]"
    by code_simp
  have u: "utcDate 1704515400000 = lit ''2024-01-06''"
    "utcDate (Min (set [1704412800000, 1705708800000])) = lit ''2024-01-05''"
    "utcDate (Max (set [1704412800000, 1705708800000])) = lit ''2024-01-20''"
    "utcDate (- 62167305540000) = lit ''-000001-12-31''"
    by code_simp+
  have 1: "getDateRange ?H 125000 1704515400000 []
     = Inr \<lparr>range_start = Some (lit ''2024-01-06''), range_end = Some (lit ''2024-01-06'')\<rparr>"
    using inst [THEN conjunct1] by (simp add: u)
  have "?cs \<noteq> [] \<and> length ?cs \<le> 125000 \<and> (\<forall>c\<in>set ?cs. newDate ?H (date c) \<noteq> NaN)"
    using d by simp
  with inst [THEN conjunct2, THEN conjunct1] obtain instants where
    i: "map (\<lambda>c. newDate ?H (date c)) ?cs = map Number instants"
    and r: "getDateRange ?H 125000 1704515400000 ?cs
              = Inr \<lparr>range_start = Some (utcDate (Min (set instants))),
                     range_end = Some (utcDate (Max (set instants)))\<rparr>"
    by blast
  from i d have "map Number instants = map Number [1704412800000, 1705708800000]" by simp
  then have "instants = [1704412800000, 1705708800000]"
    using inj_map_eq_map [of Number instants "[1704412800000, 1705708800000]"]
    by (simp add: inj_on_def)
  with r u have 2: "getDateRange ?H 125000 1704515400000 ?cs
     = Inr \<lparr>range_start = Some (lit ''2024-01-05''), range_end = Some (lit ''2024-01-20'')\<rparr>"
    by simp
  have "mset ?cs' = mset ?cs" by (simp add: add_mset_commute)
  with inst [THEN conjunct2, THEN conjunct2, THEN conjunct1]
  have 3: "getDateRange ?H 125000 1704515400000 ?cs' = getDateRange ?H 125000 1704515400000 ?cs"
    by blast
  have 4: "\<exists>y m d. onUtcDay y m d (- 62167305540000) \<and> writtenDate y m d (lit ''-000001-12-31'')"
    using inst [THEN conjunct2, THEN conjunct2, THEN conjunct2, THEN conjunct1]
    by (simp add: u)
  from 1 2 3 4 show ?thesis by simp
qed

text \<open>
  C5 as stated fails on the form of the date: a record dated
  \<open>0000-01-01T00:00:00+23:59\<close> denotes an instant of the last day of the year before the
  year 0, and start and end are \<open>-000001-12-31\<close>, which is not of the form
  \<open>YYYY-MM-DD\<close>.
\<close>

theorem getDateRange_expanded_year_counterexample:
  "newDate (\<lambda>s. NaN) (lit ''0000-01-01T00:00:00+23:59'') = Number (- 62167305540000)
   \<and> getDateRange (\<lambda>s. NaN) 125000 1704515400000 [commitAt ''0000-01-01T00:00:00+23:59'']
     = Inr \<lparr>range_start = Some (lit ''-000001-12-31''), range_end = Some (lit ''-000001-12-31'')\<rparr>"
proof -
  let ?cs = "[commitAt ''0000-01-01T00:00:00+23:59'']"
  have n: "newDate (\<lambda>s. NaN) (lit ''0000-01-01T00:00:00+23:59'') = Number (- 62167305540000)"
    by code_simp
  then have d: "map (\<lambda>c. newDate (\<lambda>s. NaN) (date c)) ?cs = map Number [- 62167305540000]"
    by (simp add: commitAt_def)
  have u: "utcDate (- 62167305540000) = lit ''-000001-12-31''" by code_simp
  have "getDateRange (\<lambda>s. NaN) 125000 1704515400000 ?cs
     = Inr \<lparr>range_start = Some (lit ''-000001-12-31''), range_end = Some (lit ''-000001-12-31'')\<rparr>"
    using getDateRange_parsed [OF _ _ d, of 125000 1704515400000] by (simp add: u)
  with n show ?thesis by (rule conjI)
qed

text \<open>
  C7. When the date field of some record does not parse, so that its \<open>Date\<close> is
  invalid, getDateRange throws a \<open>RangeError\<close>: \<open>Math.min\<close> yields \<open>NaN\<close> and
  \<open>toISOString\<close> rejects the invalid date; on a sequence beyond the argument limit the
  call of \<open>Math.min\<close> itself throws one.
\<close>

theorem getDateRange_invalid_date:
  assumes "c \<in> set commits" and "newDate hostParse (date c) = NaN"
  shows "getDateRange hostParse argLimit now commits = Inl RangeError"
  using assms by (rule getDateRange_NaN)

theorem getDateRange_invalid_date_witness:
  "getDateRange (\<lambda>s. NaN) 125000 1704515400000 [commitAt ''2024-01-05'', commitAt ''not a date'']
     = Inl RangeError"
proof -
  have "newDate (\<lambda>s. NaN) (date (commitAt ''not a date'')) = NaN" by code_simp
  moreover have "commitAt ''not a date'' \<in> set [commitAt ''2024-01-05'', commitAt ''not a date'']"
    by simp
  ultimately show ?thesis by (rule getDateRange_invalid_date [rotated])
qed


end
